theory Spec2Isabelle
  imports Complex_Main "HOL-Library.Product_Lexorder" "HOL-Library.Multiset"
begin

section \<open>Token grids and the VampNet configuration\<close>

text \<open>
  The masked-token generation code of \<^verbatim>\<open>vampnet/modules/transformer.py\<close>.
  Tensors are nested lists: a token grid of shape (batch, codebook, time) is a list of
  batch entries, each a list of codebook rows, each a list of token ids. Token ids are
  \<open>int\<close> (torch's 64-bit integers, no overflow at these sizes), sizes are \<open>nat\<close>.
\<close>

type_synonym row = "int list"
type_synonym grid = "int list list list"

datatype error =
    AssertionError string
  | ZeroDivisionError
  | IndexError
  | RuntimeError string
  | AttributeError string

record VampNet =
  n_codebooks :: nat
  n_conditioning_codebooks :: nat
  embedding_dim :: nat
  vocab_size :: nat
  mask_token :: int
  n_predict_codebooks :: nat

text \<open>
  \<^verbatim>\<open>VampNet.__init__\<close>: the only check of the constructor is the assertion on
  \<^verbatim>\<open>embedding_dim % n_codebooks\<close> (a zero \<^verbatim>\<open>n_codebooks\<close> makes Python's \<^verbatim>\<open>%\<close> raise).
  The attention layers, embeddings and classifier heads are the external model.
\<close>

definition VampNet_init :: "nat \<Rightarrow> nat \<Rightarrow> nat \<Rightarrow> nat \<Rightarrow> error + VampNet" where
  "VampNet_init n_cb n_cond emb_dim vocab =
     (if n_cb = 0 then Inl ZeroDivisionError
      else if emb_dim mod n_cb \<noteq> 0
        then Inl (AssertionError ''embedding_dim must be divisible by n_codebooks'')
      else Inr \<lparr> n_codebooks = n_cb,
                 n_conditioning_codebooks = n_cond,
                 embedding_dim = emb_dim,
                 vocab_size = vocab,
                 mask_token = int vocab * int n_cb,
                 n_predict_codebooks = n_cb - n_cond \<rparr>)"

text \<open>
  \<^verbatim>\<open>codebook_idx_to_global_idx\<close>: remember where the mask sentinel stands, add the
  offset \<^verbatim>\<open>arange(n_codebooks) * vocab_size\<close> along the codebook axis, then put the
  sentinel back. The offsets tensor has exactly \<^verbatim>\<open>n_codebooks\<close> rows, so a grid with
  another number of codebook rows does not broadcast and torch raises.
\<close>

definition code_offsets :: "VampNet \<Rightarrow> int list" where
  "code_offsets m = map (\<lambda>c. int c * int (vocab_size m)) [0..<n_codebooks m]"

definition codebook_idx_to_global_idx_row :: "VampNet \<Rightarrow> int \<Rightarrow> row \<Rightarrow> row" where
  "codebook_idx_to_global_idx_row m off codes =
     map (\<lambda>x. if x = mask_token m then mask_token m else x + off) codes"

definition codebook_idx_to_global_idx :: "VampNet \<Rightarrow> grid \<Rightarrow> error + grid" where
  "codebook_idx_to_global_idx m codes =
     (if \<exists>b \<in> set codes. length b \<noteq> n_codebooks m
        then Inl (RuntimeError ''shape mismatch'')
      else Inr (map (\<lambda>b. map2 (codebook_idx_to_global_idx_row m) (code_offsets m) b) codes))"

section \<open>Floating-point values\<close>

text \<open>
  A tensor entry of floating type is a real, one of the two infinities, or NaN. The
  infinities and NaN follow IEEE 754 (the code writes \<^verbatim>\<open>-float("inf")\<close> and
  \<^verbatim>\<open>torch.inf\<close> into tensors and calls \<^verbatim>\<open>nansum\<close>). Signed zeros are not
  distinguished and overflow of finite values is not modelled.

  Rounding is modelled where the code compares a computed number with a number it is
  given, or takes its floor, and the outcome is an index or a count: the cumulated
  probabilities of \<^verbatim>\<open>typical_filter\<close> and of the top-p stage, and the schedule
  arithmetic of \<^verbatim>\<open>generate_step\<close>. There the rounding of a float32 result is the
  function \<open>f32\<close>, an argument of the model of which nothing is assumed; the identity
  gives exact arithmetic. Everywhere else the operations are the exact ones.
\<close>

datatype fl = NInf | Fin real | PInf | NaN

text \<open>
  \<open>fl_key\<close> is the order \<^verbatim>\<open>torch.sort\<close> uses for an ascending sort (NaN last),
  \<open>fl_key_desc\<close> the one for \<^verbatim>\<open>descending=True\<close> (NaN first). Comparisons in the
  code (\<^verbatim>\<open><\<close>, \<^verbatim>\<open>>\<close>) are IEEE comparisons: false as soon as one side is NaN.
\<close>

fun fl_key :: "fl \<Rightarrow> nat \<times> real" where
  "fl_key NInf = (0, 0)"
| "fl_key (Fin x) = (1, x)"
| "fl_key PInf = (2, 0)"
| "fl_key NaN = (3, 0)"

fun fl_key_desc :: "fl \<Rightarrow> nat \<times> real" where
  "fl_key_desc NaN = (0, 0)"
| "fl_key_desc PInf = (1, 0)"
| "fl_key_desc (Fin x) = (2, - x)"
| "fl_key_desc NInf = (3, 0)"

definition fl_lt :: "fl \<Rightarrow> fl \<Rightarrow> bool" where
  "fl_lt a b = (a \<noteq> NaN \<and> b \<noteq> NaN \<and> fl_key a < fl_key b)"

definition fl_gt :: "fl \<Rightarrow> fl \<Rightarrow> bool" where
  "fl_gt a b = fl_lt b a"

fun fl_neg :: "fl \<Rightarrow> fl" where
  "fl_neg NInf = PInf"
| "fl_neg (Fin x) = Fin (- x)"
| "fl_neg PInf = NInf"
| "fl_neg NaN = NaN"

fun fl_add :: "fl \<Rightarrow> fl \<Rightarrow> fl" where
  "fl_add (Fin a) (Fin b) = Fin (a + b)"
| "fl_add (Fin a) NInf = NInf"
| "fl_add (Fin a) PInf = PInf"
| "fl_add NInf (Fin b) = NInf"
| "fl_add NInf NInf = NInf"
| "fl_add NInf PInf = NaN"
| "fl_add PInf (Fin b) = PInf"
| "fl_add PInf PInf = PInf"
| "fl_add PInf NInf = NaN"
| "fl_add NaN b = NaN"
| "fl_add a NaN = NaN"

definition fl_sub :: "fl \<Rightarrow> fl \<Rightarrow> fl" where
  "fl_sub a b = fl_add a (fl_neg b)"

text \<open>The sign of a product with an infinity; zero times infinity is NaN.\<close>

definition fl_signed_inf :: "real \<Rightarrow> fl" where
  "fl_signed_inf s = (if s = 0 then NaN else if 0 < s then PInf else NInf)"

fun fl_mul :: "fl \<Rightarrow> fl \<Rightarrow> fl" where
  "fl_mul (Fin a) (Fin b) = Fin (a * b)"
| "fl_mul (Fin a) PInf = fl_signed_inf a"
| "fl_mul (Fin a) NInf = fl_signed_inf (- a)"
| "fl_mul PInf (Fin b) = fl_signed_inf b"
| "fl_mul NInf (Fin b) = fl_signed_inf (- b)"
| "fl_mul PInf PInf = PInf"
| "fl_mul PInf NInf = NInf"
| "fl_mul NInf PInf = NInf"
| "fl_mul NInf NInf = PInf"
| "fl_mul NaN b = NaN"
| "fl_mul a NaN = NaN"

fun fl_div :: "fl \<Rightarrow> fl \<Rightarrow> fl" where
  "fl_div (Fin a) (Fin b) = (if b = 0 then fl_signed_inf a else Fin (a / b))"
| "fl_div (Fin a) PInf = Fin 0"
| "fl_div (Fin a) NInf = Fin 0"
| "fl_div PInf (Fin b) = (if 0 \<le> b then PInf else NInf)"
| "fl_div NInf (Fin b) = (if 0 \<le> b then NInf else PInf)"
| "fl_div PInf PInf = NaN"
| "fl_div PInf NInf = NaN"
| "fl_div NInf PInf = NaN"
| "fl_div NInf NInf = NaN"
| "fl_div NaN b = NaN"
| "fl_div a NaN = NaN"

fun fl_exp :: "fl \<Rightarrow> fl" where
  "fl_exp NInf = Fin 0"
| "fl_exp (Fin x) = Fin (exp x)"
| "fl_exp PInf = PInf"
| "fl_exp NaN = NaN"

fun fl_log :: "fl \<Rightarrow> fl" where
  "fl_log NInf = NaN"
| "fl_log (Fin x) = (if 0 < x then Fin (ln x) else if x = 0 then NInf else NaN)"
| "fl_log PInf = PInf"
| "fl_log NaN = NaN"

fun fl_abs :: "fl \<Rightarrow> fl" where
  "fl_abs NInf = PInf"
| "fl_abs (Fin x) = Fin \<bar>x\<bar>"
| "fl_abs PInf = PInf"
| "fl_abs NaN = NaN"

definition fl_max :: "fl \<Rightarrow> fl \<Rightarrow> fl" where
  "fl_max a b = (if a = NaN \<or> b = NaN then NaN else if fl_lt a b then b else a)"

definition fl_sum :: "fl list \<Rightarrow> fl" where
  "fl_sum xs = foldl fl_add (Fin 0) xs"

text \<open>\<^verbatim>\<open>nansum\<close>: the sum that skips NaN entries.\<close>

definition fl_nansum :: "fl list \<Rightarrow> fl" where
  "fl_nansum xs = fl_sum (filter (\<lambda>x. x \<noteq> NaN) xs)"

fun cumsum_from :: "fl \<Rightarrow> fl list \<Rightarrow> fl list" where
  "cumsum_from acc [] = []"
| "cumsum_from acc (x # xs) = fl_add acc x # cumsum_from (fl_add acc x) xs"

definition cumsum :: "fl list \<Rightarrow> fl list" where
  "cumsum xs = cumsum_from (Fin 0) xs"

text \<open>The rounding of a finite result, and the running sum that rounds after every addition.\<close>

fun fl_round :: "(real \<Rightarrow> real) \<Rightarrow> fl \<Rightarrow> fl" where
  "fl_round f32 (Fin x) = Fin (f32 x)"
| "fl_round f32 NInf = NInf"
| "fl_round f32 PInf = PInf"
| "fl_round f32 NaN = NaN"

fun cumsum_f32_from :: "(real \<Rightarrow> real) \<Rightarrow> fl \<Rightarrow> fl list \<Rightarrow> fl list" where
  "cumsum_f32_from f32 acc [] = []"
| "cumsum_f32_from f32 acc (x # xs) =
     fl_round f32 (fl_add acc x) # cumsum_f32_from f32 (fl_round f32 (fl_add acc x)) xs"

text \<open>
  \<^verbatim>\<open>softmax\<close> and \<^verbatim>\<open>log_softmax\<close> along the last axis, computed as torch does after
  subtracting the row maximum (a row that is all \<open>-inf\<close>, or holds \<open>+inf\<close> or NaN, comes
  out as NaN).
\<close>

definition fl_maximum :: "fl list \<Rightarrow> fl" where
  "fl_maximum xs = foldr fl_max xs NInf"

definition softmax :: "fl list \<Rightarrow> fl list" where
  "softmax xs =
     (let m = fl_maximum xs;
          e = map (\<lambda>x. fl_exp (fl_sub x m)) xs;
          s = fl_sum e
      in map (\<lambda>v. fl_div v s) e)"

text \<open>
  \<^verbatim>\<open>v.softmax(dim=-1).cumsum(dim=-1)\<close> in float32: the probabilities are rounded, and
  so is every partial sum.
\<close>

definition softmax_cumsum :: "(real \<Rightarrow> real) \<Rightarrow> fl list \<Rightarrow> fl list" where
  "softmax_cumsum f32 v = cumsum_f32_from f32 (Fin 0) (map (fl_round f32) (softmax v))"

definition log_softmax :: "fl list \<Rightarrow> fl list" where
  "log_softmax xs =
     (let m = fl_maximum xs;
          sh = map (\<lambda>x. fl_sub x m) xs;
          l = fl_log (fl_sum (map fl_exp sh))
      in map (\<lambda>v. fl_sub v l) sh)"

text \<open>
  \<^verbatim>\<open>sort\<close> returns the sorted values and the indices that sort them; the model sorts
  stably by the key. \<^verbatim>\<open>gather\<close> reads a row at a list of indices, \<^verbatim>\<open>scatter\<close> writes
  \<open>src ! j\<close> at position \<open>idx ! j\<close>.
\<close>

definition argsort :: "('a \<Rightarrow> 'k::linorder) \<Rightarrow> 'a list \<Rightarrow> nat list" where
  "argsort key xs = map snd (sort_key fst (zip (map key xs) [0..<length xs]))"

definition gather :: "'a list \<Rightarrow> nat list \<Rightarrow> 'a list" where
  "gather xs idx = map (\<lambda>i. xs ! i) idx"

definition scatter :: "'a list \<Rightarrow> nat list \<Rightarrow> 'a list \<Rightarrow> 'a list" where
  "scatter base idx src = foldl (\<lambda>acc j. acc[idx ! j := src ! j]) base [0..<length idx]"

text \<open>
  \<^verbatim>\<open>argmax\<close> along the last axis: the first index of a maximal entry (NaN counts as
  maximal). An empty row makes torch raise.
\<close>

definition argmax :: "fl list \<Rightarrow> error + nat" where
  "argmax xs =
     (if xs = [] then Inl IndexError
      else Inr (length (takeWhile (\<lambda>x. fl_key x < Max (set (map fl_key xs))) xs)))"

text \<open>Running a fallible function over the rows of a tensor: the first error wins.\<close>

fun map_err :: "('a \<Rightarrow> error + 'b) \<Rightarrow> 'a list \<Rightarrow> error + 'b list" where
  "map_err f [] = Inr []"
| "map_err f (x # xs) =
     (case f x of Inl e \<Rightarrow> Inl e
      | Inr y \<Rightarrow> (case map_err f xs of Inl e \<Rightarrow> Inl e | Inr ys \<Rightarrow> Inr (y # ys)))"

section \<open>Filtering and sampling from logits\<close>

text \<open>
  \<^verbatim>\<open>typical_filter\<close>, one row of the flattened \<^verbatim>\<open>(nb * nt, nl)\<close> view. The threshold is
  read with \<^verbatim>\<open>gather\<close> at \<^verbatim>\<open>last_ind\<close>, which raises when the index is the row length:
  when every cumulated probability, as float32 has it, is below \<^verbatim>\<open>typical_mass\<close>.
  The function builds its result with the out-of-place \<^verbatim>\<open>masked_fill\<close> and returns it;
  the tensor it was given is left as it was. \<open>typical_deviation\<close> is \<^verbatim>\<open>c_flat_shifted\<close>
  (lines 702 to 706): the distance of each token's surprisal from the entropy of the row.
\<close>

definition typical_deviation :: "fl list \<Rightarrow> fl list" where
  "typical_deviation x_flat =
     (let x_flat_norm = log_softmax x_flat;
          x_flat_norm_p = map fl_exp x_flat_norm;
          entropy = fl_neg (fl_nansum (map2 fl_mul x_flat_norm x_flat_norm_p))
      in map (\<lambda>v. fl_abs (fl_sub (fl_neg v) entropy)) x_flat_norm)"

definition typical_filter_row :: "(real \<Rightarrow> real) \<Rightarrow> real \<Rightarrow> int \<Rightarrow> fl list \<Rightarrow> error + fl list" where
  "typical_filter_row f32 typical_mass typical_min_tokens x_flat =
     (let c_flat_shifted = typical_deviation x_flat;
          x_flat_indices = argsort fl_key c_flat_shifted;
          c_flat_sorted = gather c_flat_shifted x_flat_indices;
          x_flat_cumsum = softmax_cumsum f32 (gather x_flat x_flat_indices);
          last_ind = length (filter (\<lambda>c. fl_lt c (Fin typical_mass)) x_flat_cumsum)
      in if length c_flat_sorted \<le> last_ind
         then Inl (RuntimeError ''index out of range in gather'')
         else
           let thr = c_flat_sorted ! last_ind;
               over = map (\<lambda>c. fl_gt c thr) c_flat_sorted;
               sorted_indices_to_remove =
                 (if 1 < typical_min_tokens
                  then replicate (min (nat typical_min_tokens) (length over)) False
                         @ drop (nat typical_min_tokens) over
                  else over);
               indices_to_remove =
                 scatter sorted_indices_to_remove x_flat_indices sorted_indices_to_remove
           in Inr (map2 (\<lambda>v r. if r then NInf else v) x_flat indices_to_remove))"

definition typical_filter :: "(real \<Rightarrow> real) \<Rightarrow> fl list list list \<Rightarrow> real \<Rightarrow> int \<Rightarrow> error + fl list list list" where
  "typical_filter f32 logits typical_mass typical_min_tokens =
     map_err (map_err (typical_filter_row f32 typical_mass typical_min_tokens)) logits"

text \<open>
  The top-k stage of \<^verbatim>\<open>sample_from_logits\<close>: \<^verbatim>\<open>topk\<close> raises for a \<^verbatim>\<open>k\<close> outside
  \<open>0..n\<close>, and \<^verbatim>\<open>v[..., [-1]]\<close> raises on the empty result of \<^verbatim>\<open>k = 0\<close>.
\<close>

definition top_k_row :: "int \<Rightarrow> fl list \<Rightarrow> error + fl list" where
  "top_k_row top_k logits =
     (if top_k < 0 \<or> int (length logits) < top_k
        then Inl (RuntimeError ''selected index k out of range'')
      else if top_k = 0 then Inl IndexError
      else
        let v = take (nat top_k) (sort_key fl_key_desc logits);
            kth = last v
        in Inr (map (\<lambda>x. if fl_lt x kth then NInf else x) logits))"

text \<open>
  The top-p stage: sort descending, cumulate the softmax, mark what lies over
  \<^verbatim>\<open>top_p\<close>, shift the marks right by one (\<^verbatim>\<open>F.pad(..., (1, 0))[..., :-1]\<close>), scatter them
  back to the unsorted positions.
\<close>

definition top_p_row :: "(real \<Rightarrow> real) \<Rightarrow> real \<Rightarrow> fl list \<Rightarrow> fl list" where
  "top_p_row f32 top_p logits =
     (let sorted_indices = argsort fl_key_desc logits;
          v = gather logits sorted_indices;
          cumulative_probs = softmax_cumsum f32 v;
          over = map (\<lambda>c. fl_gt c (Fin top_p)) cumulative_probs;
          sorted_indices_to_remove = butlast (False # over);
          indices_to_remove =
            scatter sorted_indices_to_remove sorted_indices sorted_indices_to_remove
      in map2 (\<lambda>x r. if r then NInf else x) logits indices_to_remove)"

text \<open>
  \<^verbatim>\<open>multinomial(1)\<close> draws an index with the probability the row gives it. The random
  source is an argument of the model: a uniform variate \<open>u\<close> in \<open>[0, 1)\<close> per row, turned
  into an index by the inverse of the cumulative distribution. torch raises when an
  entry is infinite, NaN or negative, or when the row sums to nothing.
\<close>

fun fl_nonneg :: "fl \<Rightarrow> bool" where
  "fl_nonneg (Fin x) = (0 \<le> x)"
| "fl_nonneg NInf = False"
| "fl_nonneg PInf = False"
| "fl_nonneg NaN = False"

fun fl_val :: "fl \<Rightarrow> real" where
  "fl_val (Fin x) = x"
| "fl_val NInf = 0"
| "fl_val PInf = 0"
| "fl_val NaN = 0"

fun pick_from :: "real \<Rightarrow> real list \<Rightarrow> nat" where
  "pick_from t [] = 0"
| "pick_from t [w] = 0"
| "pick_from t (w # w' # ws) = (if t < w then 0 else Suc (pick_from (t - w) (w' # ws)))"

definition multinomial_row :: "fl list \<Rightarrow> real \<Rightarrow> error + int" where
  "multinomial_row probs u =
     (if \<not> list_all fl_nonneg probs
        then Inl (RuntimeError ''probability tensor contains either inf, nan or element < 0'')
      else if sum_list (map fl_val probs) \<le> 0
        then Inl (RuntimeError ''invalid multinomial distribution (sum of probabilities <= 0)'')
      else Inr (int (pick_from (u * sum_list (map fl_val probs)) (map fl_val probs))))"

definition multinomial :: "fl list list list \<Rightarrow> (nat \<Rightarrow> nat \<Rightarrow> real) \<Rightarrow> error + int list list" where
  "multinomial probs us =
     map_err (\<lambda>b. map_err (\<lambda>s. multinomial_row (probs ! b ! s) (us b s)) [0..<length (probs ! b)])
       [0..<length probs]"

definition argmax_token :: "fl list \<Rightarrow> error + int" where
  "argmax_token logits = (case argmax logits of Inl e \<Rightarrow> Inl e | Inr i \<Rightarrow> Inr (int i))"

text \<open>
  \<^verbatim>\<open>sample_from_logits\<close> on logits of shape (batch, seq, vocab). Its filtering
  stages (lines 604 to 631) are \<open>filter_logits\<close>. The call of \<^verbatim>\<open>typical_filter\<close> is a
  statement of its own: what it returns is bound to no name, so only an exception of the
  call has an effect, and the stages after it read \<^verbatim>\<open>logits\<close>.
\<close>

definition filter_logits ::
  "(real \<Rightarrow> real) \<Rightarrow> fl list list list \<Rightarrow> int option \<Rightarrow> real option \<Rightarrow> bool \<Rightarrow> real \<Rightarrow> int
     \<Rightarrow> error + fl list list list" where
  "filter_logits f32 logits top_k top_p typical_filtering typical_mass typical_min_tokens =
     (case (if typical_filtering then typical_filter f32 logits typical_mass typical_min_tokens
            else Inr logits) of
        Inl e \<Rightarrow> Inl e
      | Inr _ \<Rightarrow>
     (case (case top_k of None \<Rightarrow> Inr logits
            | Some k \<Rightarrow> map_err (map_err (top_k_row k)) logits) of
        Inl e \<Rightarrow> Inl e
      | Inr logits_k \<Rightarrow>
          Inr (case top_p of None \<Rightarrow> logits_k
               | Some p \<Rightarrow> if p < 1 then map (map (top_p_row f32 p)) logits_k else logits_k)))"

text \<open>
  The rest of \<^verbatim>\<open>sample_from_logits\<close> (lines 633 to 649): the probabilities, the token
  by \<^verbatim>\<open>multinomial\<close> or \<^verbatim>\<open>argmax\<close>, and with \<^verbatim>\<open>return_probs\<close> the probability of
  each token.
\<close>

definition token_probs :: "fl list list list \<Rightarrow> int list list \<Rightarrow> fl list list" where
  "token_probs probs token = map2 (map2 (\<lambda>p t. p ! nat t)) probs token"

definition sample_from_logits ::
  "(real \<Rightarrow> real) \<Rightarrow> fl list list list \<Rightarrow> bool \<Rightarrow> real \<Rightarrow> int option \<Rightarrow> real option \<Rightarrow> bool \<Rightarrow> real \<Rightarrow> int
     \<Rightarrow> bool \<Rightarrow> (nat \<Rightarrow> nat \<Rightarrow> real) \<Rightarrow> error + (int list list \<times> fl list list option)" where
  "sample_from_logits f32 logits sample temperature top_k top_p typical_filtering typical_mass
       typical_min_tokens return_probs us =
     (case filter_logits f32 logits top_k top_p typical_filtering typical_mass typical_min_tokens of
        Inl e \<Rightarrow> Inl e
      | Inr logits_f \<Rightarrow>
        let probs =
              (if 0 < temperature
               then map (map (\<lambda>l. softmax (map (\<lambda>x. fl_div x (Fin temperature)) l))) logits_f
               else map (map softmax) logits_f)
        in (case (if sample then multinomial probs us
                  else map_err (map_err argmax_token) logits_f) of
              Inl e \<Rightarrow> Inl e
            | Inr token \<Rightarrow>
                Inr (token, if return_probs then Some (token_probs probs token) else None)))"

section \<open>Re-masking by randomized top-k\<close>

text \<open>
  \<^verbatim>\<open>gumbel_noise_like\<close> fills a tensor with \<open>-log(-log(u))\<close> for uniform variates \<open>u\<close>
  drawn from \<open>[1e-20, 1)\<close>; the variates are an argument of the model, indexed by
  batch row and position.
\<close>

definition gumbel_noise :: "real \<Rightarrow> fl" where
  "gumbel_noise u = fl_neg (fl_log (fl_neg (fl_log (Fin u))))"

definition confidence_row :: "fl list \<Rightarrow> real \<Rightarrow> (nat \<Rightarrow> real) \<Rightarrow> fl list" where
  "confidence_row probs temperature u =
     map (\<lambda>i. fl_add (fl_log (probs ! i)) (fl_mul (Fin temperature) (gumbel_noise (u i))))
       [0..<length probs]"

text \<open>
  \<^verbatim>\<open>mask_by_random_topk\<close>, one row: the cut-off is read from the sorted confidences at
  index \<^verbatim>\<open>num_to_mask\<close> (\<^verbatim>\<open>take_along_dim\<close> raises for an index outside the row), and the
  mask is the strict comparison with it.
\<close>

definition mask_by_random_topk_row :: "int \<Rightarrow> fl list \<Rightarrow> real \<Rightarrow> (nat \<Rightarrow> real) \<Rightarrow> error + bool list" where
  "mask_by_random_topk_row num_to_mask probs temperature u =
     (let confidence = confidence_row probs temperature u;
          sorted_confidence = sort_key fl_key confidence
      in if num_to_mask < 0 \<or> int (length sorted_confidence) \<le> num_to_mask
         then Inl (RuntimeError ''index out of range in gather'')
         else
           let cut_off = sorted_confidence ! nat num_to_mask
           in Inr (map (\<lambda>c. fl_lt c cut_off) confidence))"

definition mask_by_random_topk ::
  "int list \<Rightarrow> fl list list \<Rightarrow> real list \<Rightarrow> (nat \<Rightarrow> nat \<Rightarrow> real) \<Rightarrow> error + bool list list" where
  "mask_by_random_topk num_to_mask probs temperature u =
     (if length num_to_mask \<noteq> length probs \<or> length temperature \<noteq> length probs
        then Inl (RuntimeError ''shape mismatch'')
      else map_err (\<lambda>b. mask_by_random_topk_row (num_to_mask ! b) (probs ! b) (temperature ! b) (u b))
             [0..<length probs])"

section \<open>Rows of logits with a candidate\<close>

text \<open>
  A row of logits as the model and the filters produce it: every entry is a finite
  number or \<open>-inf\<close> (a token a filter has excluded), and at least one entry is finite.
\<close>

fun is_fin :: "fl \<Rightarrow> bool" where
  "is_fin (Fin x) = True"
| "is_fin NInf = False"
| "is_fin PInf = False"
| "is_fin NaN = False"

definition valid_logits_row :: "fl list \<Rightarrow> bool" where
  "valid_logits_row xs = (list_all (\<lambda>x. is_fin x \<or> x = NInf) xs \<and> list_ex is_fin xs)"

section \<open>Flattening the predicted codebooks\<close>

text \<open>
  Modelled from the spec: \<^verbatim>\<open>codebook_flatten\<close> and \<^verbatim>\<open>codebook_unflatten\<close>
  (\<^verbatim>\<open>vampnet/util.py\<close> is not among the sources). The spec fixes one invertible pair
  that flattens a (codebook, time) grid as (time, codebook) pairs: the cell of codebook
  \<open>c\<close> at time \<open>t\<close> stands at position \<open>t * n_c + c\<close> of the flat sequence.
\<close>

definition codebook_flatten1 :: "'a list list \<Rightarrow> 'a list" where
  "codebook_flatten1 g =
     (let n_c = length g; n_t = (case g of [] \<Rightarrow> 0 | r # _ \<Rightarrow> length r)
      in map (\<lambda>i. g ! (i mod n_c) ! (i div n_c)) [0..<n_t * n_c])"

definition codebook_unflatten1 :: "nat \<Rightarrow> 'a list \<Rightarrow> 'a list list" where
  "codebook_unflatten1 n_c flat =
     map (\<lambda>c. map (\<lambda>t. flat ! (t * n_c + c)) [0..<length flat div n_c]) [0..<n_c]"

definition codebook_flatten :: "'a list list list \<Rightarrow> 'a list list" where
  "codebook_flatten tokens = map codebook_flatten1 tokens"

definition codebook_unflatten :: "'a list list \<Rightarrow> nat \<Rightarrow> 'a list list list" where
  "codebook_unflatten flat_tokens n_c = map (codebook_unflatten1 n_c) flat_tokens"

section \<open>Elementwise tensor operations\<close>

text \<open>
  \<^verbatim>\<open>torch.where\<close> with a tensor or a scalar on either side, on tensors of one shape.
  Where the code combines the \<open>2 * nb\<close> rows of a guidance-doubled grid with the \<open>nb\<close>
  rows that come out of sampling, torch broadcasts a single row and raises otherwise:
  \<open>bcast_rows\<close>.
\<close>

definition where_tt :: "bool list list \<Rightarrow> 'a list list \<Rightarrow> 'a list list \<Rightarrow> 'a list list" where
  "where_tt c a b = map2 (\<lambda>cr (ar, br). map2 (\<lambda>cv (x, y). if cv then x else y) cr (zip ar br)) c (zip a b)"

definition where_ts :: "bool list list \<Rightarrow> 'a list list \<Rightarrow> 'a \<Rightarrow> 'a list list" where
  "where_ts c a v = map2 (map2 (\<lambda>cv x. if cv then x else v)) c a"

definition where_st :: "bool list list \<Rightarrow> 'a \<Rightarrow> 'a list list \<Rightarrow> 'a list list" where
  "where_st c v b = map2 (map2 (\<lambda>cv y. if cv then v else y)) c b"

definition bcast_rows :: "'b list list \<Rightarrow> 'a list list \<Rightarrow> error + 'a list list" where
  "bcast_rows ref xs =
     (if map length xs = map length ref then Inr xs
      else if length xs = 1 \<and> (\<forall>r \<in> set ref. length r = length (hd xs))
        then Inr (replicate (length ref) (hd xs))
      else Inl (RuntimeError ''shape mismatch''))"

definition count_true :: "bool list \<Rightarrow> int" where
  "count_true ms = int (length (filter (\<lambda>v. v) ms))"

text \<open>A loop whose body can raise: the first error ends it.\<close>

fun fold_err :: "('a \<Rightarrow> 's \<Rightarrow> error + 's) \<Rightarrow> 'a list \<Rightarrow> 's \<Rightarrow> error + 's" where
  "fold_err f [] s = Inr s"
| "fold_err f (x # xs) s = (case f x s of Inl e \<Rightarrow> Inl e | Inr s' \<Rightarrow> fold_err f xs s')"

section \<open>The generation state machine\<close>

text \<open>
  The random numbers one step consumes: the uniform variates of \<^verbatim>\<open>multinomial\<close> and
  those of \<^verbatim>\<open>gumbel_noise_like\<close>, by batch row and flat position.
\<close>

record step_rng =
  multinomial_u :: "nat \<Rightarrow> nat \<Rightarrow> real"
  gumbel_u :: "nat \<Rightarrow> nat \<Rightarrow> real"

record GenerationState =
  z_masked :: grid
  z :: grid
  mask :: "bool list list list"
  num_mask_tokens_at_start :: int
  n_infer_codebooks :: nat
  step :: nat
  sampling_steps :: nat
  cfg_guidance :: "real option"
  nb :: nat


text \<open>
  The target count of \<^verbatim>\<open>generate_step\<close> for one batch row:
  \<^verbatim>\<open>floor(_gamma(r) * num_mask_tokens_at_start)\<close>, and on every step but the last
  \<^verbatim>\<open>maximum(1, minimum(mask.sum() - 1, num_to_mask))\<close>. The schedule \<^verbatim>\<open>_gamma\<close>
  (\<^verbatim>\<open>vampnet/mask.py\<close>, not among the sources) is a parameter. The product is a
  float32 tensor: the floor is taken of its rounded value.
\<close>

definition num_to_mask_row :: "(real \<Rightarrow> real) \<Rightarrow> (real \<Rightarrow> real) \<Rightarrow> real \<Rightarrow> int \<Rightarrow> bool \<Rightarrow> int \<Rightarrow> int" where
  "num_to_mask_row f32 gamma r n_start not_final masked =
     (let num_to_mask = \<lfloor>f32 (gamma r * real_of_int n_start)\<rfloor>
      in if not_final then max 1 (min (masked - 1) num_to_mask) else num_to_mask)"

text \<open>
  The forward pass of \<^verbatim>\<open>generate_step\<close> (lines 218 to 226). \<open>forward\<close> is the external
  model, from the masked grid to logits of shape (batch, vocab, seq). With guidance the
  two halves of the batch are blended. The result is permuted to (batch, seq, vocab).
\<close>

definition cfg_blend :: "real \<Rightarrow> fl list list list \<Rightarrow> fl list list list \<Rightarrow> fl list list list" where
  "cfg_blend g cond uncond =
     map2 (map2 (map2 (\<lambda>x y. fl_add (fl_mul (Fin g) x) (fl_mul (Fin (1 - g)) y)))) cond uncond"

definition step_logits :: "(grid \<Rightarrow> fl list list list) \<Rightarrow> GenerationState \<Rightarrow> fl list list list" where
  "step_logits forward state =
     (let logits0 = forward (z_masked state);
          logits1 = (case cfg_guidance state of None \<Rightarrow> logits0
                     | Some g \<Rightarrow> cfg_blend g (take (nb state) logits0) (drop (nb state) logits0))
      in map transpose logits1)"

text \<open>
  \<^verbatim>\<open>generate_step\<close>. The schedule step \<open>r\<close> and the temperature
  \<^verbatim>\<open>mask_temperature * (1 - r)\<close> are float32 tensors with one entry per batch row
  (\<^verbatim>\<open>scalar_to_batch_tensor\<close>, of \<^verbatim>\<open>vampnet/util.py\<close>, repeats its scalar once per
  row), so the model holds their common entry.
\<close>

definition generate_step ::
  "(real \<Rightarrow> real) \<Rightarrow> VampNet \<Rightarrow> (grid \<Rightarrow> fl list list list) \<Rightarrow> (real \<Rightarrow> real) \<Rightarrow> GenerationState \<Rightarrow> real \<Rightarrow> real
     \<Rightarrow> bool \<Rightarrow> real \<Rightarrow> int \<Rightarrow> real option \<Rightarrow> real \<Rightarrow> step_rng \<Rightarrow> error + GenerationState" where
  "generate_step f32 m forward gamma state temperature mask_temperature typical_filtering
       typical_mass typical_min_tokens top_p sample_cutoff rng =
     (if sampling_steps state = 0 then Inl ZeroDivisionError
      else
        let r = f32 (real (step state + 1) / real (sampling_steps state));
            logits = step_logits forward state
        in case sample_from_logits f32 logits
                  (real (step state) / real (sampling_steps state) \<le> sample_cutoff)
                  temperature None top_p typical_filtering typical_mass typical_min_tokens
                  True (multinomial_u rng) of
             Inl e \<Rightarrow> Inl e
           | Inr (sampled0, None) \<Rightarrow> Inl (RuntimeError ''no probabilities returned'')
           | Inr (sampled0, Some probs0) \<Rightarrow>
               let z_flat = codebook_flatten (map (drop (n_conditioning_codebooks m)) (z_masked state));
                   mask1 = map (map (\<lambda>x. x = mask_token m)) z_flat
               in case bcast_rows z_flat sampled0 of Inl e \<Rightarrow> Inl e
                  | Inr sampled1 \<Rightarrow>
                 (case bcast_rows z_flat probs0 of Inl e \<Rightarrow> Inl e
                  | Inr probs1 \<Rightarrow>
                    let sampled_z = where_tt mask1 sampled1 z_flat;
                        selected_probs = where_ts mask1 probs1 PInf;
                        num_to_mask =
                          (if Suc (step state) \<noteq> sampling_steps state
                           then map (\<lambda>mr. num_to_mask_row f32 gamma r (num_mask_tokens_at_start state)
                                            True (count_true mr)) mask1
                           else replicate (length (z state))
                                  (num_to_mask_row f32 gamma r (num_mask_tokens_at_start state) False 0))
                    in case mask_by_random_topk num_to_mask selected_probs
                              (replicate (length (z state)) (f32 (mask_temperature * f32 (1 - r))))
                              (gumbel_u rng) of
                         Inl e \<Rightarrow> Inl e
                       | Inr mask2 \<Rightarrow>
                           let z_new = where_st mask2 (mask_token m) sampled_z;
                               z_unflat = codebook_unflatten z_new (n_infer_codebooks state);
                               mask_unflat = codebook_unflatten mask2 (n_infer_codebooks state)
                           in Inr (state \<lparr> z_masked :=
                                            map2 (\<lambda>zb nb. take (n_conditioning_codebooks m) zb @ nb)
                                              (z state) z_unflat,
                                          mask := mask_unflat,
                                          step := step state + 1 \<rparr>)))"


section \<open>Well-shaped grids and states\<close>

text \<open>
  A grid of shape (batch, \<open>n_codebooks\<close>, \<open>n_t\<close>), and a state whose two grids have that
  shape and the same batch size, in a model with at least one predicted codebook.
\<close>

definition wf_grid :: "VampNet \<Rightarrow> nat \<Rightarrow> grid \<Rightarrow> bool" where
  "wf_grid m n_t g = (\<forall>b \<in> set g. length b = n_codebooks m \<and> (\<forall>r \<in> set b. length r = n_t))"

definition wf_state :: "VampNet \<Rightarrow> nat \<Rightarrow> GenerationState \<Rightarrow> bool" where
  "wf_state m n_t state =
     (wf_grid m n_t (z_masked state) \<and> wf_grid m n_t (z state) \<and>
      length (z state) = length (z_masked state) \<and>
      n_infer_codebooks state = n_codebooks m - n_conditioning_codebooks m \<and>
      n_conditioning_codebooks m < n_codebooks m)"

section \<open>Generation level by level\<close>

text \<open>
  \<^verbatim>\<open>stemgen_generate\<close> resolves the predicted codebooks one level after the other. The
  parts of it that decide which positions the sub-loop of a level can touch, and what
  the returned grid holds, are modelled: the probabilities handed to the re-masking
  (lines 418 to 426), the update of the masked grid from the mask chosen for the level
  (lines 433 to 443, 451 to 459 and 480 to 506), and the grid returned at the end (lines
  553 to 557). The sampled tokens, the sampled probabilities and the mask chosen for the
  level are arguments of these parts.
\<close>

text \<open>
  Lines 420 to 426: the probabilities are unflattened, the rows of the levels after
  \<^verbatim>\<open>codebook_level\<close> are overwritten with \<open>-inf\<close>, and the grid is flattened again. The
  line that would overwrite the rows before \<^verbatim>\<open>codebook_level\<close> is a comment.
\<close>

definition fill_levels_above :: "nat \<Rightarrow> fl list list \<Rightarrow> fl list list" where
  "fill_levels_above codebook_level g =
     take (codebook_level + 1) g @ map (map (\<lambda>_. NInf)) (drop (codebook_level + 1) g)"

definition stemgen_level_probs :: "nat \<Rightarrow> nat \<Rightarrow> fl list list \<Rightarrow> fl list list" where
  "stemgen_level_probs n_infer codebook_level selected_probs =
     codebook_flatten (map (fill_levels_above codebook_level)
                         (codebook_unflatten selected_probs n_infer))"




section \<open>Concrete configurations\<close>

text \<open>Small configurations and inputs at which the theorems below are instantiated.\<close>

definition vn_small :: VampNet where
  "vn_small = \<lparr> n_codebooks = 2, n_conditioning_codebooks = 0, embedding_dim = 4,
       vocab_size = 3, mask_token = 6, n_predict_codebooks = 2 \<rparr>"

text \<open>
  The smallest model: one codebook with a vocabulary of one token, so the mask
  sentinel is 1. The external model returns the logit 0 for the only token at both
  positions of a sequence of length two, the schedule is the linear one, and the random
  numbers are constant (the uniform variate \<open>exp (-1)\<close> gives the Gumbel noise 0).
\<close>

definition vn_tiny :: VampNet where
  "vn_tiny = \<lparr> n_codebooks = 1, n_conditioning_codebooks = 0, embedding_dim = 1,
       vocab_size = 1, mask_token = 1, n_predict_codebooks = 1 \<rparr>"

definition forward_zero :: "grid \<Rightarrow> fl list list list" where
  "forward_zero g = map (\<lambda>b. [[Fin 0, Fin 0]]) g"

definition gamma_linear :: "real \<Rightarrow> real" where
  "gamma_linear r = 1 - r"

definition rng_const :: step_rng where
  "rng_const = \<lparr> multinomial_u = (\<lambda>b i. 0), gumbel_u = (\<lambda>b i. exp (- 1)) \<rparr>"

definition state_one_masked :: GenerationState where
  "state_one_masked =
     \<lparr> z_masked = [[[0, 1]]], z = [[[0, 1]]], mask = [[[False, True]]],
       num_mask_tokens_at_start = 1, n_infer_codebooks = 1, step = 0, sampling_steps = 3,
       cfg_guidance = None, nb = 1 \<rparr>"

text \<open>
  A state with both positions masked, and random numbers that give the Gumbel noise 0
  at position 0 and \<open>-1\<close> at position 1.
\<close>

definition state_two_masked :: GenerationState where
  "state_two_masked =
     \<lparr> z_masked = [[[1, 1]]], z = [[[1, 1]]], mask = [[[True, True]]],
       num_mask_tokens_at_start = 2, n_infer_codebooks = 1, step = 0, sampling_steps = 3,
       cfg_guidance = None, nb = 1 \<rparr>"

definition rng_two :: step_rng where
  "rng_two = \<lparr> multinomial_u = (\<lambda>b i. 0),
               gumbel_u = (\<lambda>b i. if i = 0 then exp (- 1) else exp (- exp 1)) \<rparr>"



section \<open>Auxiliary facts on the list operations\<close>

lemma map_err_Inr_iff:
  "map_err f xs = Inr ys \<longleftrightarrow> length ys = length xs \<and> (\<forall>i < length xs. f (xs ! i) = Inr (ys ! i))"
proof (induction xs arbitrary: ys)
  case Nil
  then show ?case by auto
next
  case (Cons x xs)
  show ?case
  proof (cases ys)
    case Nil
    then show ?thesis by (auto split: sum.splits)
  next
    case (Cons y ys')
    have "(\<forall>i<Suc (length xs). f ((x # xs) ! i) = Inr ((y # ys') ! i))
        \<longleftrightarrow> f x = Inr y \<and> (\<forall>i<length xs. f (xs ! i) = Inr (ys' ! i))"
      by (auto simp: nth_Cons split: nat.splits)
    then show ?thesis using Cons Cons.IH [of ys'] by (auto split: sum.splits)
  qed
qed

lemma map_err_total:
  "(\<forall>x \<in> set xs. \<exists>y. f x = Inr y) \<Longrightarrow> \<exists>ys. map_err f xs = Inr ys"
  by (induction xs) auto

lemma argmax_props:
  assumes "xs \<noteq> []"
  shows "\<exists>i < length xs. argmax xs = Inr i \<and> (\<forall>j < length xs. fl_key (xs ! j) \<le> fl_key (xs ! i))
            \<and> (\<forall>j < i. fl_key (xs ! j) < fl_key (xs ! i))"
proof -
  define m where "m = Max (set (map fl_key xs))"
  define i where "i = length (takeWhile (\<lambda>x. fl_key x < m) xs)"
  have fin: "finite (set (map fl_key xs))" and ne: "set (map fl_key xs) \<noteq> {}" using assms by auto
  have m_in: "m \<in> set (map fl_key xs)" unfolding m_def using Max_in [OF fin ne] .
  have m_ge: "fl_key x \<le> m" if "x \<in> set xs" for x
    unfolding m_def using Max_ge [OF fin, of "fl_key x"] that by simp
  obtain x where x: "x \<in> set xs" "fl_key x = m" using m_in by auto
  have neq: "takeWhile (\<lambda>x. fl_key x < m) xs \<noteq> xs"
    using x by (metis (mono_tags, lifting) less_irrefl set_takeWhileD)
  have "i \<noteq> length xs"
  proof
    assume "i = length xs"
    then have "take i xs = xs" by simp
    then show False using neq takeWhile_eq_take [of "\<lambda>x. fl_key x < m" xs] by (simp add: i_def)
  qed
  then have i_lt: "i < length xs"
    using length_takeWhile_le [of "\<lambda>x. fl_key x < m" xs] by (simp add: i_def)
  have "\<not> fl_key (xs ! i) < m" using i_lt unfolding i_def using nth_length_takeWhile by blast
  then have key_i: "fl_key (xs ! i) = m" using m_ge [of "xs ! i"] i_lt by (simp add: order.order_iff_strict)
  have below: "fl_key (xs ! j) < m" if "j < i" for j
    using that unfolding i_def
    by (metis nth_mem set_takeWhileD takeWhile_nth)
  have "argmax xs = Inr i" using assms by (simp add: argmax_def i_def m_def)
  then show ?thesis using i_lt key_i below m_ge by (intro exI [of _ i]) auto
qed


lemma argmax_token_props:
  assumes "xs \<noteq> []"
  shows "\<exists>i < length xs. argmax_token xs = Inr (int i) \<and> (\<forall>j < length xs. fl_key (xs ! j) \<le> fl_key (xs ! i))
            \<and> (\<forall>j < i. fl_key (xs ! j) < fl_key (xs ! i))"
  using argmax_props [OF assms] by (auto simp: argmax_token_def)

lemmas fl_eval = fl_lt_def fl_gt_def fl_sub_def fl_max_def fl_sum_def fl_maximum_def softmax_def
  log_softmax_def cumsum_def argsort_def gather_def scatter_def argmax_def fl_signed_inf_def fl_nansum_def
  less_prod_def less_eq_prod_def



subsection \<open>argsort, gather, scatter\<close>

lemma length_argsort [simp]: "length (argsort key xs) = length xs"
  by (simp add: argsort_def)

lemma mset_argsort: "mset (argsort key xs) = mset [0..<length xs]"
proof -
  let ?ps = "zip (map key xs) [0..<length xs]"
  have "mset (map snd (sort_key fst ps)) = mset (map snd ps)" for ps :: "('b \<times> nat) list"
    by simp
  then have "mset (map snd (sort_key fst ?ps)) = mset (map snd ?ps)" .
  moreover have "map snd ?ps = [0..<length xs]"
    by simp
  ultimately show ?thesis by (simp only: argsort_def)
qed

lemma set_argsort [simp]: "set (argsort key xs) = {0..<length xs}"
  using mset_argsort [of key xs] by (metis mset_eq_setD set_upt)

lemma distinct_argsort [simp]: "distinct (argsort key xs)"
  using mset_argsort [of key xs] by (metis distinct_upt mset_eq_imp_distinct_iff)

lemma argsort_nth_less: "j < length xs \<Longrightarrow> argsort key xs ! j < length xs"
  using set_argsort [of key xs] nth_mem [of j "argsort key xs"] by auto

lemma keys_gather_argsort:
  "map key (gather xs (argsort key xs)) = map fst (sort_key fst (zip (map key xs) [0..<length xs]))"
proof -
  have "key (xs ! snd p) = fst p" if "p \<in> set (zip (map key xs) [0..<length xs])" for p
    using that by (auto simp: set_zip)
  then show ?thesis by (simp add: gather_def argsort_def)
qed

lemma sorted_gather_argsort: "sorted (map key (gather xs (argsort key xs)))"
  by (simp add: keys_gather_argsort sorted_sort_key)

lemma length_gather [simp]: "length (gather xs idx) = length idx"
  by (simp add: gather_def)

lemma gather_argsort_first_le:
  assumes "i < length xs"
  shows "key (gather xs (argsort key xs) ! 0) \<le> key (xs ! i)"
proof -
  let ?g = "gather xs (argsort key xs)"
  have "i \<in> set (argsort key xs)" using assms by simp
  then obtain j where j: "j < length xs" "argsort key xs ! j = i"
    by (metis in_set_conv_nth length_argsort)
  have "map key ?g ! 0 \<le> map key ?g ! j"
    using sorted_gather_argsort [of key xs] j(1) by (intro sorted_nth_mono) simp_all
  moreover have "0 < length (argsort key xs)" using assms by auto
  ultimately show ?thesis using j assms by (simp add: gather_def)
qed

lemma foldl_update_other:
  "i \<notin> (\<lambda>j. idx ! j) ` set js \<Longrightarrow> foldl (\<lambda>acc j. acc[idx ! j := src ! j]) base js ! i = base ! i"
  by (induction js arbitrary: base) auto

lemma length_foldl_update [simp]:
  "length (foldl (\<lambda>acc j. acc[idx ! j := src ! j]) base js) = length base"
  by (induction js arbitrary: base) auto

lemma foldl_update_hit:
  assumes "distinct (map (\<lambda>j. idx ! j) js)" "j \<in> set js" "\<forall>k \<in> set js. idx ! k < length base"
  shows "foldl (\<lambda>acc j. acc[idx ! j := src ! j]) base js ! (idx ! j) = src ! j"
  using assms
proof (induction js arbitrary: base)
  case Nil
  then show ?case by simp
next
  case (Cons a js)
  show ?case
  proof (cases "j = a")
    case True
    have "idx ! a \<notin> (\<lambda>j. idx ! j) ` set js" using Cons.prems(1) by auto
    then show ?thesis using True Cons.prems(3) by (simp add: foldl_update_other)
  next
    case False
    then show ?thesis using Cons by auto
  qed
qed

lemma length_scatter [simp]: "length (scatter base idx src) = length base"
  by (simp add: scatter_def)

lemma scatter_nth:
  assumes "distinct idx" "j < length idx" "\<forall>i \<in> set idx. i < length base"
  shows "scatter base idx src ! (idx ! j) = src ! j"
proof -
  have "map (\<lambda>j. idx ! j) [0..<length idx] = idx" by (rule map_nth)
  then have "distinct (map (\<lambda>j. idx ! j) [0..<length idx])" using assms(1) by simp
  moreover have "\<forall>k \<in> set [0..<length idx]. idx ! k < length base" using assms(3) by simp
  ultimately show ?thesis
    unfolding scatter_def using assms(2) by (intro foldl_update_hit) simp_all
qed

section \<open>Global token indices\<close>

lemma codebook_idx_to_global_idx_cell:
  assumes shp: "\<forall>b \<in> set codes. length b = n_codebooks m"
    and b: "b < length codes" and c: "c < n_codebooks m" and t: "t < length (codes ! b ! c)"
  shows "\<exists>out. codebook_idx_to_global_idx m codes = Inr out \<and>
           out ! b ! c ! t =
             (if codes ! b ! c ! t = mask_token m then mask_token m
              else codes ! b ! c ! t + int c * int (vocab_size m))"
proof -
  have len: "length (codes ! b) = n_codebooks m" using shp b by simp
  have "codebook_idx_to_global_idx m codes
      = Inr (map (\<lambda>b. map2 (codebook_idx_to_global_idx_row m) (code_offsets m) b) codes)"
    using shp by (simp add: codebook_idx_to_global_idx_def)
  moreover have "map (\<lambda>b. map2 (codebook_idx_to_global_idx_row m) (code_offsets m) b) codes ! b ! c ! t
      = (if codes ! b ! c ! t = mask_token m then mask_token m
              else codes ! b ! c ! t + int c * int (vocab_size m))"
    using b c t len by (simp add: code_offsets_def codebook_idx_to_global_idx_row_def)
  ultimately show ?thesis by simp
qed

text \<open>
  Claim C10. On a grid with \<open>n_codebooks\<close> codebook rows, \<open>codebook_idx_to_global_idx\<close>
  returns a grid in which every cell that holds the mask sentinel still holds it, and
  every other cell has the offset \<open>c * vocab_size\<close> of its codebook \<open>c\<close> added. A cell
  that held a valid vocabulary index lands in \<open>[0, mask_token)\<close>, so with
  \<open>mask_token = vocab_size * n_codebooks\<close> no shifted token meets the sentinel and the
  sentinel is never shifted into the token range.
\<close>

theorem codebook_idx_to_global_idx_offsets:
  assumes shp: "\<forall>b \<in> set codes. length b = n_codebooks m"
    and mt: "mask_token m = int (vocab_size m) * int (n_codebooks m)"
    and b: "b < length codes" and c: "c < n_codebooks m" and t: "t < length (codes ! b ! c)"
  shows "\<exists>out. codebook_idx_to_global_idx m codes = Inr out \<and>
           (codes ! b ! c ! t = mask_token m \<longrightarrow> out ! b ! c ! t = mask_token m) \<and>
           (codes ! b ! c ! t \<noteq> mask_token m \<longrightarrow>
              out ! b ! c ! t = codes ! b ! c ! t + int c * int (vocab_size m)) \<and>
           (0 \<le> codes ! b ! c ! t \<and> codes ! b ! c ! t < int (vocab_size m) \<longrightarrow>
              out ! b ! c ! t = codes ! b ! c ! t + int c * int (vocab_size m) \<and>
              0 \<le> out ! b ! c ! t \<and> out ! b ! c ! t < mask_token m)"
proof -
  obtain out where out: "codebook_idx_to_global_idx m codes = Inr out"
    and cell: "out ! b ! c ! t =
             (if codes ! b ! c ! t = mask_token m then mask_token m
              else codes ! b ! c ! t + int c * int (vocab_size m))"
    using codebook_idx_to_global_idx_cell [OF shp b c t] by blast
  have bound: "x + int c * int (vocab_size m) < mask_token m" if x: "x < int (vocab_size m)" for x
  proof -
    have "int c + 1 \<le> int (n_codebooks m)" using c by simp
    then have "(int c + 1) * int (vocab_size m) \<le> int (n_codebooks m) * int (vocab_size m)"
      by (rule mult_right_mono) simp
    then show ?thesis using x mt by (simp add: algebra_simps)
  qed
  have ne: "x \<noteq> mask_token m" if "0 \<le> x" "x < int (vocab_size m)" for x
  proof -
    have "0 \<le> int c * int (vocab_size m)" by simp
    then show ?thesis using bound [of x] that by linarith
  qed
  show ?thesis using out cell bound ne by auto
qed

theorem codebook_idx_to_global_idx_offsets_witness:
  "\<exists>out. codebook_idx_to_global_idx vn_small [[[0, 6], [2, 6]]] = Inr out \<and>
     out ! 0 ! 1 ! 0 = 5 \<and> out ! 0 ! 1 ! 1 = 6"
  using codebook_idx_to_global_idx_offsets [of "[[[0, 6], [2, 6]]]" vn_small 0 1 0]
    codebook_idx_to_global_idx_offsets [of "[[[0, 6], [2, 6]]]" vn_small 0 1 1]
  by (auto simp: vn_small_def)

section \<open>Temperature zero\<close>

text \<open>
  Claim C1, as the code has it. With \<open>temperature = 0\<close> the logits are not divided:
  the probabilities are the softmax of the filtered logits themselves. The token is a
  draw from these probabilities when \<open>sample\<close> is true; when \<open>sample\<close> is false it is,
  in every row, the first index of a maximal filtered logit. Which of the two happens
  depends on \<open>sample\<close> alone.
\<close>

theorem sample_from_logits_zero_temperature:
  assumes filt: "filter_logits f32 logits top_k top_p typical_filtering typical_mass typical_min_tokens = Inr lf"
    and rows: "\<forall>b \<in> set lf. \<forall>l \<in> set b. l \<noteq> []"
  shows "sample_from_logits f32 logits True 0 top_k top_p typical_filtering typical_mass
             typical_min_tokens rp us =
           (case multinomial (map (map softmax) lf) us of Inl e \<Rightarrow> Inl e
            | Inr token \<Rightarrow> Inr (token, if rp then Some (token_probs (map (map softmax) lf) token) else None))
       \<and> (\<exists>token. sample_from_logits f32 logits False 0 top_k top_p typical_filtering typical_mass
             typical_min_tokens rp us =
           Inr (token, if rp then Some (token_probs (map (map softmax) lf) token) else None) \<and>
           length token = length lf \<and>
           (\<forall>b < length lf. length (token ! b) = length (lf ! b) \<and>
              (\<forall>s < length (lf ! b). \<exists>i < length (lf ! b ! s). token ! b ! s = int i \<and>
                  (\<forall>j < length (lf ! b ! s). fl_key (lf ! b ! s ! j) \<le> fl_key (lf ! b ! s ! i)) \<and>
                  (\<forall>j < i. fl_key (lf ! b ! s ! j) < fl_key (lf ! b ! s ! i)))))"
proof (intro conjI)
  show "sample_from_logits f32 logits True 0 top_k top_p typical_filtering typical_mass
             typical_min_tokens rp us =
           (case multinomial (map (map softmax) lf) us of Inl e \<Rightarrow> Inl e
            | Inr token \<Rightarrow> Inr (token, if rp then Some (token_probs (map (map softmax) lf) token) else None))"
    using filt by (simp add: sample_from_logits_def Let_def)
next
  have inner: "\<exists>ys. map_err argmax_token b = Inr ys" if "b \<in> set lf" for b
    using rows that argmax_token_props by (intro map_err_total) blast
  then obtain token where token: "map_err (map_err argmax_token) lf = Inr token"
    using map_err_total [of lf "map_err argmax_token"] by blast
  then have len: "length token = length lf"
    and each: "\<And>b. b < length lf \<Longrightarrow> map_err argmax_token (lf ! b) = Inr (token ! b)"
    by (simp_all add: map_err_Inr_iff)
  have cell: "length (token ! b) = length (lf ! b) \<and>
              (\<forall>s < length (lf ! b). \<exists>i < length (lf ! b ! s). token ! b ! s = int i \<and>
                  (\<forall>j < length (lf ! b ! s). fl_key (lf ! b ! s ! j) \<le> fl_key (lf ! b ! s ! i)) \<and>
                  (\<forall>j < i. fl_key (lf ! b ! s ! j) < fl_key (lf ! b ! s ! i)))" if b: "b < length lf" for b
  proof -
    from each [OF b] have l: "length (token ! b) = length (lf ! b)"
      and c: "\<And>s. s < length (lf ! b) \<Longrightarrow> argmax_token (lf ! b ! s) = Inr (token ! b ! s)"
      by (simp_all add: map_err_Inr_iff)
    have "\<exists>i < length (lf ! b ! s). token ! b ! s = int i \<and>
                  (\<forall>j < length (lf ! b ! s). fl_key (lf ! b ! s ! j) \<le> fl_key (lf ! b ! s ! i)) \<and>
                  (\<forall>j < i. fl_key (lf ! b ! s ! j) < fl_key (lf ! b ! s ! i))" if s: "s < length (lf ! b)" for s
    proof -
      have "lf ! b ! s \<noteq> []" using rows b s by (meson nth_mem)
      from argmax_token_props [OF this] c [OF s] show ?thesis by auto
    qed
    then show ?thesis using l by blast
  qed
  have "sample_from_logits f32 logits False 0 top_k top_p typical_filtering typical_mass
             typical_min_tokens rp us =
           Inr (token, if rp then Some (token_probs (map (map softmax) lf) token) else None)"
    using filt token by (simp add: sample_from_logits_def Let_def)
  then show "\<exists>token. sample_from_logits f32 logits False 0 top_k top_p typical_filtering typical_mass
             typical_min_tokens rp us =
           Inr (token, if rp then Some (token_probs (map (map softmax) lf) token) else None) \<and>
           length token = length lf \<and>
           (\<forall>b < length lf. length (token ! b) = length (lf ! b) \<and>
              (\<forall>s < length (lf ! b). \<exists>i < length (lf ! b ! s). token ! b ! s = int i \<and>
                  (\<forall>j < length (lf ! b ! s). fl_key (lf ! b ! s ! j) \<le> fl_key (lf ! b ! s ! i)) \<and>
                  (\<forall>j < i. fl_key (lf ! b ! s ! j) < fl_key (lf ! b ! s ! i))))"
    using len cell by blast
qed


theorem sample_from_logits_zero_temperature_witness:
  "\<exists>token. sample_from_logits (\<lambda>x. x) [[[Fin 0, Fin 1]]] False 0 None None False (1/5) 1 True (\<lambda>b s. 0) =
      Inr (token, Some (token_probs (map (map softmax) [[[Fin 0, Fin 1]]]) token)) \<and> length token = 1"
  using sample_from_logits_zero_temperature [of "\<lambda>x. x" "[[[Fin 0, Fin 1]]]" None None False "1/5" 1
      "[[[Fin 0, Fin 1]]]" True "\<lambda>b s. 0"]
  by (auto simp: filter_logits_def)

text \<open>
  The claim as stated fails: with \<open>temperature = 0\<close> and \<open>sample = True\<close> the token of
  the row \<open>[0, 1]\<close> can be 0 (here for the uniform variate 0), while the maximal logit
  stands at index 1.
\<close>

theorem sample_from_logits_zero_temperature_counterexample:
  "sample_from_logits (\<lambda>x. x) [[[Fin 0, Fin 1]]] True 0 None None False (1/5) 1 True (\<lambda>b s. 0)
      = Inr ([[0]], Some [[Fin (exp (- 1) / (exp (- 1) + 1))]])
   \<and> map_err (map_err argmax_token) [[[Fin 0, Fin 1]]] = Inr [[1]]"
proof -
  have pos: "0 < exp (- 1 :: real) + 1" by (simp add: add_pos_pos)
  have pos2: "0 < exp (- 1 :: real) / (exp (- 1) + 1)" using pos by simp
  have pos3: "\<not> exp (- 1 :: real) / (exp (- 1) + 1) + 1 / (exp (- 1) + 1) \<le> 0"
    using pos pos2 by (smt (verit) divide_pos_pos)
  have ne: "exp (- 1 :: real) + 1 \<noteq> 0" using pos by simp
  show ?thesis
    using pos2 pos3 ne
    by (simp add: sample_from_logits_def filter_logits_def multinomial_def multinomial_row_def argmax_token_def
        token_probs_def fl_eval Let_def)
qed

section \<open>Configuration values that are not checked\<close>

lemma fl_div_one: "fl_div x (Fin 1) = x"
  by (cases x) simp_all

lemma sample_from_logits_nonpositive_temperature:
  assumes "temperature \<le> 0"
  shows "sample_from_logits f32 logits sample temperature top_k top_p typical_filtering typical_mass
           typical_min_tokens rp us
       = sample_from_logits f32 logits sample 1 top_k top_p typical_filtering typical_mass
           typical_min_tokens rp us"
  using assms by (simp add: sample_from_logits_def fl_div_one split: sum.splits)

lemma filter_logits_top_p_ge_one:
  assumes "1 \<le> p"
  shows "filter_logits f32 logits top_k (Some p) typical_filtering typical_mass typical_min_tokens
       = filter_logits f32 logits top_k None typical_filtering typical_mass typical_min_tokens"
  using assms by (simp add: filter_logits_def split: sum.splits)

lemma filter_logits_error_top_p:
  assumes "filter_logits f32 logits top_k (Some p) typical_filtering typical_mass typical_min_tokens = Inl e"
  shows "filter_logits f32 logits top_k None typical_filtering typical_mass typical_min_tokens = Inl e"
  using assms by (auto simp: filter_logits_def split: sum.splits if_splits option.splits)


text \<open>
  Claim C8, as the code has it. The constructor rejects an \<open>embedding_dim\<close> that is
  not a multiple of \<open>n_codebooks\<close> with an assertion that says so. It takes neither a
  temperature nor a \<open>top_p\<close>, and \<open>sample_from_logits\<close>, which takes both, checks
  neither: a temperature of zero or below gives what temperature 1 gives, a \<open>top_p\<close> of
  1 or more gives what no \<open>top_p\<close> gives, and no value of \<open>top_p\<close> makes the filtering
  stages raise.
\<close>

theorem invalid_configuration_handling:
  "(0 < n_cb \<and> emb_dim mod n_cb \<noteq> 0 \<longrightarrow>
      VampNet_init n_cb n_cond emb_dim vocab =
        Inl (AssertionError ''embedding_dim must be divisible by n_codebooks''))
   \<and> (temperature \<le> 0 \<longrightarrow>
        sample_from_logits f32 logits sample temperature top_k top_p typical_filtering typical_mass
            typical_min_tokens rp us
        = sample_from_logits f32 logits sample 1 top_k top_p typical_filtering typical_mass
            typical_min_tokens rp us)
   \<and> (1 \<le> p \<longrightarrow>
        sample_from_logits f32 logits sample temperature top_k (Some p) typical_filtering typical_mass
            typical_min_tokens rp us
        = sample_from_logits f32 logits sample temperature top_k None typical_filtering typical_mass
            typical_min_tokens rp us)
   \<and> (\<forall>e. filter_logits f32 logits top_k (Some p) typical_filtering typical_mass typical_min_tokens = Inl e
         \<longrightarrow> filter_logits f32 logits top_k None typical_filtering typical_mass typical_min_tokens = Inl e)"
proof (intro conjI impI allI)
  assume "0 < n_cb \<and> emb_dim mod n_cb \<noteq> 0"
  then show "VampNet_init n_cb n_cond emb_dim vocab =
        Inl (AssertionError ''embedding_dim must be divisible by n_codebooks'')"
    by (simp add: VampNet_init_def)
next
  assume "temperature \<le> 0"
  then show "sample_from_logits f32 logits sample temperature top_k top_p typical_filtering typical_mass
            typical_min_tokens rp us
        = sample_from_logits f32 logits sample 1 top_k top_p typical_filtering typical_mass
            typical_min_tokens rp us"
    by (rule sample_from_logits_nonpositive_temperature)
next
  assume "1 \<le> p"
  then show "sample_from_logits f32 logits sample temperature top_k (Some p) typical_filtering typical_mass
            typical_min_tokens rp us
        = sample_from_logits f32 logits sample temperature top_k None typical_filtering typical_mass
            typical_min_tokens rp us"
    by (simp add: sample_from_logits_def filter_logits_top_p_ge_one)
next
  fix e
  assume "filter_logits f32 logits top_k (Some p) typical_filtering typical_mass typical_min_tokens = Inl e"
  then show "filter_logits f32 logits top_k None typical_filtering typical_mass typical_min_tokens = Inl e"
    by (rule filter_logits_error_top_p)
qed

theorem invalid_configuration_handling_witness:
  "VampNet_init 4 1 6 10 = Inl (AssertionError ''embedding_dim must be divisible by n_codebooks'')
   \<and> sample_from_logits (\<lambda>x. x) [[[Fin 0]]] False (- 1) None (Some 2) False (1/5) 1 True (\<lambda>b s. 0)
      = sample_from_logits (\<lambda>x. x) [[[Fin 0]]] False 1 None (Some 2) False (1/5) 1 True (\<lambda>b s. 0)
   \<and> sample_from_logits (\<lambda>x. x) [[[Fin 0]]] False (- 1) None (Some 2) False (1/5) 1 True (\<lambda>b s. 0)
      = sample_from_logits (\<lambda>x. x) [[[Fin 0]]] False (- 1) None None False (1/5) 1 True (\<lambda>b s. 0)"
proof -
  have h: "0 < (4::nat) \<and> (6::nat) mod 4 \<noteq> 0" "(- 1::real) \<le> 0" "(1::real) \<le> 2"
    by simp_all
  show ?thesis
    using invalid_configuration_handling [of 4 6 1 10 "- 1" "\<lambda>x. x" "[[[Fin 0]]]" False None "Some 2" False "1/5" 1
      True "\<lambda>b s. 0" 2] h
    by blast
qed


text \<open>
  The claim as stated fails: a negative temperature with \<open>top_p = 2\<close>, and
  \<open>top_p = -1\<close>, are accepted and a token comes back.
\<close>

theorem invalid_configuration_counterexample:
  "sample_from_logits (\<lambda>x. x) [[[Fin 0]]] False (- 1) None (Some 2) False (1/5) 1 True (\<lambda>b s. 0)
      = Inr ([[0]], Some [[Fin 1]])
   \<and> sample_from_logits (\<lambda>x. x) [[[Fin 0]]] False 1 None (Some (- 1)) False (1/5) 1 True (\<lambda>b s. 0)
      = Inr ([[0]], Some [[Fin 1]])"
  by (simp add: sample_from_logits_def filter_logits_def top_p_row_def softmax_cumsum_def
        argmax_token_def token_probs_def fl_eval Let_def)

section \<open>The typical filter inside sampling\<close>

text \<open>
  Whenever \<open>typical_filter\<close> returns, \<open>sample_from_logits\<close> gives with
  \<open>typical_filtering\<close> what it gives without.
\<close>

lemma sample_from_logits_ignores_typical_filter:
  assumes "typical_filter f32 logits typical_mass typical_min_tokens = Inr filtered"
  shows "sample_from_logits f32 logits sample temperature top_k top_p True typical_mass
           typical_min_tokens rp us
       = sample_from_logits f32 logits sample temperature top_k top_p False typical_mass
           typical_min_tokens rp us"
  using assms by (simp add: sample_from_logits_def filter_logits_def)

lemma typical_filter_row_stages:
  assumes "typical_deviation x = c"
    and "argsort fl_key c = idx"
    and "gather c idx = cs"
    and "softmax_cumsum f32 (gather x idx) = cum"
    and "length (filter (\<lambda>c. fl_lt c (Fin mass)) cum) = li"
    and "li < length cs"
    and "map (\<lambda>c. fl_gt c (cs ! li)) cs = over"
    and "(if 1 < mt then replicate (min (nat mt) (length over)) False @ drop (nat mt) over else over) = rem"
    and "scatter rem idx rem = itr"
  shows "typical_filter_row f32 mass mt x = Inr (map2 (\<lambda>v r. if r then NInf else v) x itr)"
  using assms unfolding typical_filter_row_def Let_def by (auto split: if_splits)

lemma exp_m_ln3: "exp (- ln (3::real)) = 1 / 3"
  by (simp add: exp_minus inverse_eq_divide)

lemma log_softmax_example: "log_softmax [Fin (ln 3), Fin 0] = [Fin (- ln (4/3)), Fin (- ln 3 - ln (4/3))]"
  by (simp add: fl_eval Let_def exp_m_ln3)

lemma softmax_example: "softmax [Fin (ln 3), Fin 0] = [Fin (3/4), Fin (1/4)]"
  by (simp add: fl_eval Let_def exp_m_ln3)

lemma entropy_example: "fl_neg (fl_nansum (map2 fl_mul [Fin (- ln (4/3)), Fin (- ln 3 - ln (4/3))]
        (map fl_exp [Fin (- ln (4/3)), Fin (- ln 3 - ln (4/3))]))) = Fin (ln (4/3) + ln 3 / 4)"
proof -
  have a: "exp (- ln (4/3 :: real)) = 3/4" by (simp add: exp_minus inverse_eq_divide)
  have b: "exp (- ln 3 - ln (4/3 :: real)) = 1/4" by (simp add: exp_diff exp_m_ln3)
  show ?thesis by (simp add: fl_eval a b algebra_simps)
qed

lemma c_shifted_example: "map (\<lambda>v. fl_abs (fl_sub (fl_neg v) (Fin (ln (4/3) + ln 3 / 4)))) [Fin (- ln (4/3)), Fin (- ln 3 - ln (4/3))]
    = [Fin (ln 3 / 4), Fin (3 * ln 3 / 4)]"
  by (simp add: fl_eval)

lemma typical_deviation_example:
  "typical_deviation [Fin (ln 3), Fin 0] = [Fin (ln 3 / 4), Fin (3 * ln 3 / 4)]"
  unfolding typical_deviation_def Let_def log_softmax_example entropy_example c_shifted_example ..

lemma argsort_example: "argsort fl_key [Fin (ln 3 / 4), Fin (3 * ln 3 / 4)] = [0, 1]"
  by (simp add: fl_eval)

lemma typical_filter_row_example:
  "typical_filter_row (\<lambda>x. x) (1/2) 1 [Fin (ln 3), Fin 0] = Inr [Fin (ln 3), NInf]"
proof -
  have "typical_filter_row (\<lambda>x. x) (1/2) 1 [Fin (ln 3), Fin 0]
      = Inr (map2 (\<lambda>v r. if r then NInf else v) [Fin (ln 3), Fin 0] [False, True])"
  proof (rule typical_filter_row_stages [OF typical_deviation_example argsort_example])
    show "gather [Fin (ln 3 / 4), Fin (3 * ln 3 / 4)] [0, 1] = [Fin (ln 3 / 4), Fin (3 * ln 3 / 4)]"
      by (simp add: gather_def)
    show "softmax_cumsum (\<lambda>x. x) (gather [Fin (ln 3), Fin 0] [0, 1]) = [Fin (3/4), Fin 1]"
      by (simp add: gather_def softmax_example softmax_cumsum_def)
    show "length (filter (\<lambda>c. fl_lt c (Fin (1/2))) [Fin (3/4), Fin 1]) = 0"
      by (simp add: fl_eval)
    show "0 < length [Fin (ln 3 / 4), Fin (3 * ln 3 / 4)]" by simp
    show "map (\<lambda>c. fl_gt c ([Fin (ln 3 / 4), Fin (3 * ln 3 / 4)] ! 0)) [Fin (ln 3 / 4), Fin (3 * ln 3 / 4)]
        = [False, True]"
      by (simp add: fl_eval)
    show "(if 1 < (1::int) then replicate (min (nat 1) (length [False, True])) False @ drop (nat 1) [False, True]
          else [False, True]) = [False, True]" by simp
    show "scatter [False, True] [0, 1] [False, True] = [False, True]"
      by (simp add: scatter_def)
  qed
  then show ?thesis by simp
qed


text \<open>
  Claim C2 at a concrete input. On the row \<open>[ln 3, 0]\<close> (probabilities 3/4 and 1/4)
  with \<open>typical_mass = 1/2\<close>, \<open>typical_filter\<close> returns the row with the second logit
  at \<open>-inf\<close>. \<open>sample_from_logits\<close> with \<open>typical_filtering\<close> still samples from the
  unfiltered row: with the uniform variate 9/10 it returns the excluded token 1 with
  probability 1/4, and its argmax path reports probability 3/4 for token 0.
\<close>

theorem sample_from_logits_typical_filter_discarded:
  "typical_filter (\<lambda>x. x) [[[Fin (ln 3), Fin 0]]] (1/2) 1 = Inr [[[Fin (ln 3), NInf]]]
   \<and> sample_from_logits (\<lambda>x. x) [[[Fin (ln 3), Fin 0]]] True 1 None None True (1/2) 1 True (\<lambda>b s. 9/10)
       = Inr ([[1]], Some [[Fin (1/4)]])
   \<and> sample_from_logits (\<lambda>x. x) [[[Fin (ln 3), Fin 0]]] False 1 None None True (1/2) 1 True (\<lambda>b s. 9/10)
       = Inr ([[0]], Some [[Fin (3/4)]])"
proof (intro conjI)
  show tf: "typical_filter (\<lambda>x. x) [[[Fin (ln 3), Fin 0]]] (1/2) 1 = Inr [[[Fin (ln 3), NInf]]]"
    by (simp add: typical_filter_def typical_filter_row_example)
  have fl: "filter_logits (\<lambda>x. x) [[[Fin (ln 3), Fin 0]]] None None True (1/2) 1 = Inr [[[Fin (ln 3), Fin 0]]]"
    by (simp add: filter_logits_def tf)
  show "sample_from_logits (\<lambda>x. x) [[[Fin (ln 3), Fin 0]]] True 1 None None True (1/2) 1 True (\<lambda>b s. 9/10)
       = Inr ([[1]], Some [[Fin (1/4)]])"
    by (simp add: sample_from_logits_def fl fl_div_one softmax_example multinomial_def multinomial_row_def
          token_probs_def)
  have "0 < ln (3::real)" by simp
  then show "sample_from_logits (\<lambda>x. x) [[[Fin (ln 3), Fin 0]]] False 1 None None True (1/2) 1 True (\<lambda>b s. 9/10)
       = Inr ([[0]], Some [[Fin (3/4)]])"
    by (simp add: sample_from_logits_def fl fl_div_one softmax_example argmax_token_def argmax_def
          token_probs_def less_prod_def)
qed

section \<open>The filters keep a candidate\<close>

subsection \<open>Rows with a finite entry\<close>

lemma fl_key_desc_le_iff: "fl_key_desc a \<le> fl_key_desc b \<longleftrightarrow> fl_key b \<le> fl_key a"
  by (cases a; cases b) (auto simp: less_eq_prod_def)

lemma fin_or_ninf_cases:
  assumes "is_fin x \<or> x = NInf"
  obtains r where "x = Fin r" | "x = NInf"
  using assms by (cases x) auto

lemma valid_row_nonempty: "valid_logits_row xs \<Longrightarrow> xs \<noteq> []"
  by (auto simp: valid_logits_row_def)

lemma valid_row_entry: "valid_logits_row xs \<Longrightarrow> x \<in> set xs \<Longrightarrow> is_fin x \<or> x = NInf"
  by (auto simp: valid_logits_row_def list_all_iff)

text \<open>An entry of a valid row that no entry exceeds is finite.\<close>

lemma valid_row_max_is_fin:
  assumes v: "valid_logits_row xs" and m: "m \<in> set xs"
    and ge: "\<forall>x \<in> set xs. fl_key x \<le> fl_key m"
  shows "is_fin m"
proof -
  obtain f where f: "f \<in> set xs" "is_fin f" using v by (auto simp: valid_logits_row_def list_ex_iff)
  have "fl_key f \<le> fl_key m" using ge f by simp
  moreover have "is_fin m \<or> m = NInf" using valid_row_entry [OF v m] .
  ultimately show ?thesis using f(2) by (cases f; cases m) (auto simp: less_eq_prod_def)
qed

lemma masked_row_valid:
  assumes v: "valid_logits_row xs" and len: "length rm = length xs"
    and keep: "i < length xs" "\<not> rm ! i" "is_fin (xs ! i)"
  shows "valid_logits_row (map2 (\<lambda>x r. if r then NInf else x) xs rm)"
proof -
  let ?ys = "map2 (\<lambda>x r. if r then NInf else x) xs rm"
  have nth: "?ys ! n = (if rm ! n then NInf else xs ! n)" if "n < length xs" for n
    using that len by simp
  have "\<forall>n < length ?ys. is_fin (?ys ! n) \<or> ?ys ! n = NInf"
  proof (intro allI impI)
    fix n assume "n < length ?ys"
    then have n: "n < length xs" using len by simp
    have "is_fin (xs ! n) \<or> xs ! n = NInf" using valid_row_entry [OF v] n nth_mem by blast
    then show "is_fin (?ys ! n) \<or> ?ys ! n = NInf" unfolding nth [OF n] by (cases "rm ! n") simp_all
  qed
  then have all: "list_all (\<lambda>x. is_fin x \<or> x = NInf) ?ys" unfolding list_all_length .
  have "is_fin (?ys ! i)" unfolding nth [OF keep(1)] using keep by simp
  moreover have "i < length ?ys" using keep(1) len by simp
  ultimately have "list_ex is_fin ?ys" unfolding list_ex_length by blast
  then show ?thesis using all by (simp only: valid_logits_row_def)
qed

lemma ex_max_key:
  fixes key :: "'a \<Rightarrow> 'k::linorder"
  assumes "xs \<noteq> []"
  shows "\<exists>m \<in> set xs. \<forall>x \<in> set xs. key x \<le> key m"
  using assms
proof (induction xs)
  case Nil
  then show ?case by simp
next
  case (Cons a xs)
  show ?case
  proof (cases "xs = []")
    case True
    then show ?thesis by simp
  next
    case False
    then obtain m where m: "m \<in> set xs" "\<forall>x \<in> set xs. key x \<le> key m"
      using Cons.IH by blast
    show ?thesis
    proof (cases "key m \<le> key a")
      case True
      then have "\<forall>x \<in> set (a # xs). key x \<le> key a" using m(2) by auto
      then show ?thesis by auto
    next
      case False
      then have "\<forall>x \<in> set (a # xs). key x \<le> key m" using m(2) by auto
      then show ?thesis using m(1) by auto
    qed
  qed
qed

subsection \<open>top-k\<close>

lemma top_k_row_valid:
  assumes v: "valid_logits_row xs" and r: "top_k_row k xs = Inr ys"
  shows "valid_logits_row ys"
proof -
  have k: "0 < k" "k \<le> int (length xs)" using r by (auto simp: top_k_row_def split: if_splits)
  define kth where "kth = last (take (nat k) (sort_key fl_key_desc xs))"
  have ys: "ys = map (\<lambda>x. if fl_lt x kth then NInf else x) xs"
    using r k by (auto simp: top_k_row_def kth_def Let_def split: if_splits)
  have h1: "nat k \<le> length (sort_key fl_key_desc xs)" and h2: "0 < nat k" using k by simp_all
  have "take (nat k) (sort_key fl_key_desc xs) \<noteq> []"
    by (metis h1 h2 take_eq_Nil take_all length_greater_0_conv Ex_list_of_length list.size(3))
  then have "kth \<in> set (take (nat k) (sort_key fl_key_desc xs))" unfolding kth_def by (rule last_in_set)
  then have kth_in: "kth \<in> set xs" by (metis in_set_takeD set_sort)
  obtain m where m: "m \<in> set xs" "\<forall>x \<in> set xs. fl_key x \<le> fl_key m"
    using ex_max_key [OF valid_row_nonempty [OF v], of fl_key] by blast
  have fin_m: "is_fin m" using valid_row_max_is_fin [OF v m] .
  have "\<not> fl_lt m kth" using m(2) kth_in by (auto simp: fl_lt_def)
  then have "m \<in> set ys" using m(1) by (auto simp: ys)
  moreover have "is_fin y \<or> y = NInf" if "y \<in> set ys" for y
    using that valid_row_entry [OF v] by (auto simp: ys)
  ultimately show ?thesis using fin_m by (auto simp: valid_logits_row_def list_all_iff list_ex_iff)
qed

subsection \<open>top-p\<close>

lemma length_cumsum_from [simp]: "length (cumsum_from a xs) = length xs"
  by (induction xs arbitrary: a) auto

lemma length_cumsum [simp]: "length (cumsum xs) = length xs"
  by (simp add: cumsum_def)

lemma length_softmax [simp]: "length (softmax xs) = length xs"
  by (simp add: softmax_def Let_def)

lemma length_cumsum_f32_from [simp]: "length (cumsum_f32_from f32 a xs) = length xs"
  by (induction xs arbitrary: a) simp_all

lemma length_softmax_cumsum [simp]: "length (softmax_cumsum f32 xs) = length xs"
  by (simp add: softmax_cumsum_def)

lemma length_log_softmax [simp]: "length (log_softmax xs) = length xs"
  by (simp add: log_softmax_def Let_def)

lemma top_p_row_valid:
  assumes v: "valid_logits_row xs"
  shows "valid_logits_row (top_p_row f32 p xs)"
proof -
  define idx where "idx = argsort fl_key_desc xs"
  define over where "over = map (\<lambda>c. fl_gt c (Fin p)) (softmax_cumsum f32 (gather xs idx))"
  define rm where "rm = butlast (False # over)"
  define itr where "itr = scatter rm idx rm"
  have n: "0 < length xs" using valid_row_nonempty [OF v] by simp
  have len_over: "length over = length xs" by (simp add: over_def idx_def)
  have len_rm: "length rm = length xs"
    by (simp add: rm_def len_over [symmetric] length_butlast del: butlast.simps)
  have rm0: "\<not> rm ! 0" using n len_over by (cases over) (simp_all add: rm_def)
  have i0: "idx ! 0 < length xs" unfolding idx_def using n by (rule argsort_nth_less)
  have "itr ! (idx ! 0) = rm ! 0"
    unfolding itr_def using n len_rm by (intro scatter_nth) (simp_all add: idx_def)
  then have keep: "\<not> itr ! (idx ! 0)" using rm0 by simp
  have "fl_key_desc (gather xs idx ! 0) \<le> fl_key_desc (xs ! i)" if "i < length xs" for i
    unfolding idx_def using that by (rule gather_argsort_first_le)
  moreover have "gather xs idx ! 0 = xs ! (idx ! 0)" using n by (simp add: gather_def idx_def)
  ultimately have "\<forall>x \<in> set xs. fl_key x \<le> fl_key (xs ! (idx ! 0))"
    by (auto simp: in_set_conv_nth fl_key_desc_le_iff)
  then have fin: "is_fin (xs ! (idx ! 0))" using i0 by (intro valid_row_max_is_fin [OF v]) simp_all
  have "top_p_row f32 p xs = map2 (\<lambda>x r. if r then NInf else x) xs itr"
    by (simp add: top_p_row_def Let_def itr_def rm_def over_def idx_def)
  moreover have "length itr = length xs" by (simp add: itr_def len_rm)
  ultimately show ?thesis using masked_row_valid [OF v _ i0 keep fin] by simp
qed


subsection \<open>typical filter\<close>

lemma fl_maximum_Cons: "fl_maximum (x # xs) = fl_max x (fl_maximum xs)"
  by (simp add: fl_maximum_def)

lemma fl_maximum_fin_or_ninf:
  assumes "list_all (\<lambda>x. is_fin x \<or> x = NInf) xs"
  shows "(list_ex is_fin xs \<longrightarrow> is_fin (fl_maximum xs)) \<and>
         (\<not> list_ex is_fin xs \<longrightarrow> fl_maximum xs = NInf)"
  using assms
proof (induction xs)
  case Nil
  then show ?case by (simp add: fl_maximum_def)
next
  case (Cons x xs)
  then have IH: "(list_ex is_fin xs \<longrightarrow> is_fin (fl_maximum xs)) \<and>
         (\<not> list_ex is_fin xs \<longrightarrow> fl_maximum xs = NInf)" by simp
  have x: "is_fin x \<or> x = NInf" using Cons.prems by simp
  show ?case
  proof (cases "list_ex is_fin xs")
    case True
    then obtain b where b: "fl_maximum xs = Fin b" using IH by (cases "fl_maximum xs") auto
    show ?thesis using x b True
      by (cases x) (auto simp: fl_maximum_Cons fl_max_def fl_lt_def)
  next
    case False
    then have "fl_maximum xs = NInf" using IH by simp
    then show ?thesis using x False
      by (cases x) (auto simp: fl_maximum_Cons fl_max_def fl_lt_def)
  qed
qed

lemma foldl_fl_add_fin:
  "list_all is_fin es \<Longrightarrow> foldl fl_add (Fin a) es = Fin (a + sum_list (map fl_val es))"
proof (induction es arbitrary: a)
  case Nil
  then show ?case by simp
next
  case (Cons e es)
  then obtain r where "e = Fin r" by (cases e) auto
  then show ?case using Cons by (simp add: add.assoc)
qed

lemma fl_sum_fin: "list_all is_fin es \<Longrightarrow> fl_sum es = Fin (sum_list (map fl_val es))"
  by (simp add: fl_sum_def foldl_fl_add_fin)

lemma sum_list_pos:
  fixes ws :: "real list"
  assumes "\<forall>w \<in> set ws. 0 \<le> w" "\<exists>w \<in> set ws. 0 < w"
  shows "0 < sum_list ws"
  using assms
proof (induction ws)
  case Nil
  then show ?case by simp
next
  case (Cons w ws)
  have nn: "0 \<le> sum_list ws" using Cons.prems(1) by (intro sum_list_nonneg) simp
  show ?case
  proof (cases "0 < w")
    case True
    then show ?thesis using nn by simp
  next
    case False
    then have "\<exists>w \<in> set ws. 0 < w" using Cons.prems(2) by auto
    then have "0 < sum_list ws" using Cons.IH Cons.prems(1) by simp
    then show ?thesis using Cons.prems(1) by (simp add: add_nonneg_pos)
  qed
qed

lemma exp_sub_fin:
  "is_fin x \<or> x = NInf \<Longrightarrow>
     is_fin (fl_exp (fl_sub x (Fin m))) \<and> 0 \<le> fl_val (fl_exp (fl_sub x (Fin m)))"
  by (cases x) (auto simp: fl_sub_def)

lemma exp_sub_pos: "is_fin x \<Longrightarrow> 0 < fl_val (fl_exp (fl_sub x (Fin m)))"
  by (cases x) (auto simp: fl_sub_def)

lemma sub_sub_shape:
  "is_fin x \<or> x = NInf \<Longrightarrow>
     (is_fin x \<longrightarrow> is_fin (fl_sub (fl_sub x (Fin m)) (Fin l))) \<and>
     (x = NInf \<longrightarrow> fl_sub (fl_sub x (Fin m)) (Fin l) = NInf)"
  by (cases x) (auto simp: fl_sub_def)

text \<open>
  On a valid row \<open>log_softmax\<close> sends a finite logit to a finite value and \<open>-inf\<close>
  to \<open>-inf\<close>.
\<close>

lemma log_softmax_valid:
  assumes v: "valid_logits_row xs" and i: "i < length xs"
  shows "(is_fin (xs ! i) \<longrightarrow> is_fin (log_softmax xs ! i)) \<and>
         (xs ! i = NInf \<longrightarrow> log_softmax xs ! i = NInf)"
proof -
  have all: "list_all (\<lambda>x. is_fin x \<or> x = NInf) xs" and ex: "list_ex is_fin xs"
    using v by (simp_all add: valid_logits_row_def)
  obtain mx where mx: "fl_maximum xs = Fin mx"
    using fl_maximum_fin_or_ninf [OF all] ex by (cases "fl_maximum xs") auto
  define sh where "sh = map (\<lambda>x. fl_sub x (Fin mx)) xs"
  define es where "es = map fl_exp sh"
  have entry: "is_fin x \<or> x = NInf" if "x \<in> set xs" for x
    using that all by (simp add: list_all_iff)
  have es_fin: "list_all is_fin es"
    unfolding es_def sh_def list_all_iff
  proof
    fix e assume "e \<in> set (map fl_exp (map (\<lambda>x. fl_sub x (Fin mx)) xs))"
    then obtain x where "x \<in> set xs" "e = fl_exp (fl_sub x (Fin mx))" by auto
    then show "is_fin e" using exp_sub_fin [OF entry [of x]] by simp
  qed
  have es_nonneg: "\<forall>w \<in> set (map fl_val es). 0 \<le> w"
  proof
    fix w assume "w \<in> set (map fl_val es)"
    then obtain x where "x \<in> set xs" "w = fl_val (fl_exp (fl_sub x (Fin mx)))"
      by (auto simp: es_def sh_def)
    then show "0 \<le> w" using exp_sub_fin [OF entry [of x]] by simp
  qed
  obtain f where f: "f \<in> set xs" "is_fin f" using ex by (auto simp: list_ex_iff)
  have "fl_val (fl_exp (fl_sub f (Fin mx))) \<in> set (map fl_val es)"
    using f(1) by (auto simp: es_def sh_def)
  moreover have "0 < fl_val (fl_exp (fl_sub f (Fin mx)))" using f(2) by (rule exp_sub_pos)
  ultimately have "\<exists>w \<in> set (map fl_val es). 0 < w" by blast
  then have pos: "0 < sum_list (map fl_val es)" using es_nonneg by (intro sum_list_pos)
  have l: "fl_log (fl_sum es) = Fin (ln (sum_list (map fl_val es)))"
    using pos by (simp add: fl_sum_fin [OF es_fin])
  have "log_softmax xs ! i = fl_sub (fl_sub (xs ! i) (Fin mx)) (Fin (ln (sum_list (map fl_val es))))"
    using i l by (simp add: log_softmax_def Let_def mx es_def sh_def)
  moreover have "is_fin (xs ! i) \<or> xs ! i = NInf" using entry i by simp
  ultimately show ?thesis using sub_sub_shape by metis
qed

lemma map2_map_same: "map2 f xs (map g xs) = map (\<lambda>x. f x (g x)) xs"
  by (induction xs) auto

lemma mul_exp_shape:
  "is_fin v \<or> v = NInf \<Longrightarrow> is_fin (fl_mul v (fl_exp v)) \<or> fl_mul v (fl_exp v) = NaN"
  by (cases v) (auto simp: fl_signed_inf_def)

lemma entropy_fin:
  assumes "list_all (\<lambda>v. is_fin v \<or> v = NInf) xn"
  shows "is_fin (fl_neg (fl_nansum (map2 fl_mul xn (map fl_exp xn))))"
proof -
  let ?ts = "filter (\<lambda>x. x \<noteq> NaN) (map (\<lambda>v. fl_mul v (fl_exp v)) xn)"
  have "list_all is_fin ?ts"
    unfolding list_all_iff
  proof
    fix t assume "t \<in> set ?ts"
    then obtain v where "v \<in> set xn" "t = fl_mul v (fl_exp v)" "t \<noteq> NaN" by auto
    moreover have "is_fin v \<or> v = NInf" using assms calculation(1) by (simp add: list_all_iff)
    ultimately show "is_fin t" using mul_exp_shape [of v] by auto
  qed
  then have "fl_nansum (map (\<lambda>v. fl_mul v (fl_exp v)) xn) = Fin (sum_list (map fl_val ?ts))"
    by (simp add: fl_nansum_def fl_sum_fin)
  then show ?thesis by (simp add: map2_map_same)
qed

lemma c_shifted_shape:
  "is_fin v \<or> v = NInf \<Longrightarrow> is_fin h \<Longrightarrow>
     (is_fin v \<longrightarrow> is_fin (fl_abs (fl_sub (fl_neg v) h))) \<and>
     (v = NInf \<longrightarrow> fl_abs (fl_sub (fl_neg v) h) = PInf)"
  by (cases v; cases h) (auto simp: fl_sub_def)

text \<open>
  The deviation \<open>c_flat_shifted\<close> of a valid row is finite exactly at the finite logits,
  and \<open>+inf\<close> at the excluded ones.
\<close>

lemma typical_deviation_valid:
  assumes v: "valid_logits_row xs" and i: "i < length xs"
  shows "(is_fin (xs ! i) \<longrightarrow> is_fin (typical_deviation xs ! i)) \<and>
         (xs ! i = NInf \<longrightarrow> typical_deviation xs ! i = PInf)"
proof -
  let ?xn = "log_softmax xs"
  have entry: "is_fin (xs ! j) \<or> xs ! j = NInf" if "j < length xs" for j
    using that v by (simp add: valid_logits_row_def list_all_length)
  have xn: "is_fin (?xn ! j) \<or> ?xn ! j = NInf" if "j < length xs" for j
    using log_softmax_valid [OF v that] entry [OF that] by blast
  then have "list_all (\<lambda>v. is_fin v \<or> v = NInf) ?xn" by (simp add: list_all_length)
  then have h: "is_fin (fl_neg (fl_nansum (map2 fl_mul ?xn (map fl_exp ?xn))))" by (rule entropy_fin)
  have "typical_deviation xs ! i
      = fl_abs (fl_sub (fl_neg (?xn ! i)) (fl_neg (fl_nansum (map2 fl_mul ?xn (map fl_exp ?xn)))))"
    using i by (simp add: typical_deviation_def Let_def)
  then show ?thesis
    using c_shifted_shape [OF xn [OF i] h] log_softmax_valid [OF v i] entry [OF i] by auto
qed

lemma length_typical_deviation [simp]: "length (typical_deviation xs) = length xs"
  by (simp add: typical_deviation_def Let_def)

lemma typical_filter_row_valid:
  assumes v: "valid_logits_row xs" and r: "typical_filter_row f32 mass mt xs = Inr ys"
  shows "valid_logits_row ys"
proof -
  define c where "c = typical_deviation xs"
  define idx where "idx = argsort fl_key c"
  define cs where "cs = gather c idx"
  define li where "li = length (filter (\<lambda>c. fl_lt c (Fin mass)) (softmax_cumsum f32 (gather xs idx)))"
  define over where "over = map (\<lambda>c. fl_gt c (cs ! li)) cs"
  define rm where "rm = (if 1 < mt then replicate (min (nat mt) (length over)) False @ drop (nat mt) over
                         else over)"
  define itr where "itr = scatter rm idx rm"
  have n: "0 < length xs" using valid_row_nonempty [OF v] by simp
  have len_c: "length c = length xs" by (simp add: c_def)
  have len_idx: "length idx = length xs" by (simp add: idx_def len_c)
  have len_cs: "length cs = length xs" by (simp add: cs_def len_idx)
  have len_over: "length over = length xs" by (simp add: over_def len_cs)
  have len_rm: "length rm = length xs" by (auto simp: rm_def len_over)
  from r have li: "li < length cs" and ys: "ys = map2 (\<lambda>v r. if r then NInf else v) xs itr"
    by (auto simp: typical_filter_row_def Let_def c_def idx_def cs_def li_def over_def rm_def itr_def
        split: if_splits)
  have sorted: "sorted (map fl_key cs)" unfolding cs_def idx_def by (rule sorted_gather_argsort)
  have "map fl_key cs ! 0 \<le> map fl_key cs ! li"
    using sorted li by (intro sorted_nth_mono) simp_all
  then have "fl_key (cs ! 0) \<le> fl_key (cs ! li)" using li n len_cs by simp
  then have "\<not> fl_gt (cs ! 0) (cs ! li)" by (auto simp: fl_gt_def fl_lt_def)
  then have over0: "\<not> over ! 0" using n len_cs by (simp add: over_def)
  have rm0: "\<not> rm ! 0"
  proof (cases "1 < mt")
    case True
    then have "0 < min (nat mt) (length over)" using n len_over by simp
    then show ?thesis using True by (simp add: rm_def nth_append)
  next
    case False
    then show ?thesis using over0 by (simp add: rm_def)
  qed
  have i0: "idx ! 0 < length xs"
    unfolding idx_def using n len_c argsort_nth_less [of 0 c fl_key] by simp
  have "itr ! (idx ! 0) = rm ! 0"
    unfolding itr_def using n len_rm len_idx len_c by (intro scatter_nth) (simp_all add: idx_def)
  then have keep: "\<not> itr ! (idx ! 0)" using rm0 by simp
  have cs0: "cs ! 0 = c ! (idx ! 0)" using n len_idx by (simp add: cs_def gather_def)
  obtain f where f: "f < length xs" "is_fin (xs ! f)"
    using v by (auto simp: valid_logits_row_def list_ex_length)
  have "is_fin (c ! f)" using typical_deviation_valid [OF v f(1)] f(2) by (simp add: c_def)
  moreover have "fl_key (cs ! 0) \<le> fl_key (c ! f)"
    unfolding cs_def idx_def using f(1) len_c by (intro gather_argsort_first_le) simp
  ultimately have "c ! (idx ! 0) \<noteq> PInf"
    unfolding cs0 by (cases "c ! f"; cases "c ! (idx ! 0)") (auto simp: less_eq_prod_def)
  moreover have "is_fin (xs ! (idx ! 0)) \<or> xs ! (idx ! 0) = NInf"
    using v i0 by (simp add: valid_logits_row_def list_all_length)
  ultimately have fin: "is_fin (xs ! (idx ! 0))"
    using typical_deviation_valid [OF v i0] by (auto simp: c_def)
  have "length itr = length xs" by (simp add: itr_def len_rm)
  then show ?thesis unfolding ys using masked_row_valid [OF v _ i0 keep fin] by simp
qed


subsection \<open>The typical filter returns\<close>

lemma last_cumsum_from_fin:
  "list_all is_fin ps \<Longrightarrow> ps \<noteq> [] \<Longrightarrow>
     last (cumsum_from (Fin a) ps) = Fin (a + sum_list (map fl_val ps))"
proof (induction ps arbitrary: a)
  case Nil
  then show ?case by simp
next
  case (Cons p ps)
  then obtain r where r: "p = Fin r" by (cases p) auto
  show ?case
  proof (cases "ps = []")
    case True
    then show ?thesis by (simp add: r)
  next
    case False
    have "cumsum_from (fl_add (Fin a) p) ps \<noteq> []" using False by (cases ps) auto
    then show ?thesis using Cons False by (simp add: r add.assoc)
  qed
qed

lemma sum_list_divide:
  fixes ws :: "real list"
  shows "sum_list (map (\<lambda>w. w / s) ws) = sum_list ws / s"
  by (induction ws) (auto simp: add_divide_distrib)

lemma div_fin_shape: "is_fin e \<Longrightarrow> s \<noteq> 0 \<Longrightarrow>
    is_fin (fl_div e (Fin s)) \<and> fl_val (fl_div e (Fin s)) = fl_val e / s"
  by (cases e) auto

text \<open>The softmax of a valid row is a list of finite numbers that sum to one.\<close>

lemma softmax_valid:
  assumes v: "valid_logits_row xs"
  shows "list_all is_fin (softmax xs) \<and> sum_list (map fl_val (softmax xs)) = 1"
proof -
  have all: "list_all (\<lambda>x. is_fin x \<or> x = NInf) xs" and ex: "list_ex is_fin xs"
    using v by (simp_all add: valid_logits_row_def)
  obtain mx where mx: "fl_maximum xs = Fin mx"
    using fl_maximum_fin_or_ninf [OF all] ex by (cases "fl_maximum xs") auto
  define es where "es = map (\<lambda>x. fl_exp (fl_sub x (Fin mx))) xs"
  define s where "s = sum_list (map fl_val es)"
  have entry: "is_fin x \<or> x = NInf" if "x \<in> set xs" for x
    using that all by (simp add: list_all_iff)
  have es_fin: "list_all is_fin es"
    unfolding es_def list_all_iff using exp_sub_fin [OF entry] by auto
  have es_nonneg: "\<forall>w \<in> set (map fl_val es). 0 \<le> w"
    unfolding es_def using exp_sub_fin [OF entry] by auto
  obtain f where f: "f \<in> set xs" "is_fin f" using ex by (auto simp: list_ex_iff)
  have "fl_val (fl_exp (fl_sub f (Fin mx))) \<in> set (map fl_val es)"
    using f(1) by (auto simp: es_def)
  moreover have "0 < fl_val (fl_exp (fl_sub f (Fin mx)))" using f(2) by (rule exp_sub_pos)
  ultimately have "\<exists>w \<in> set (map fl_val es). 0 < w" by blast
  then have pos: "0 < s" unfolding s_def using es_nonneg by (intro sum_list_pos)
  have sm: "softmax xs = map (\<lambda>e. fl_div e (Fin s)) es"
    by (simp add: softmax_def Let_def mx es_def s_def fl_sum_fin [OF es_fin [unfolded es_def]])
  have each: "is_fin (fl_div e (Fin s)) \<and> fl_val (fl_div e (Fin s)) = fl_val e / s" if "e \<in> set es" for e
    using that es_fin pos by (intro div_fin_shape) (auto simp: list_all_iff)
  have "list_all is_fin (softmax xs)" unfolding sm list_all_iff using each by auto
  moreover have "map fl_val (softmax xs) = map (\<lambda>w. w / s) (map fl_val es)"
    unfolding sm using each by simp
  then have "sum_list (map fl_val (softmax xs)) = s / s"
    by (simp only: sum_list_divide s_def)
  ultimately show ?thesis using pos by simp
qed

lemma gather_argsort_valid:
  assumes v: "valid_logits_row xs" and len: "length c = length xs"
  shows "valid_logits_row (gather xs (argsort key c))"
proof -
  let ?idx = "argsort key c"
  have set_idx: "set ?idx = {0..<length xs}" using len by simp
  have "set (gather xs ?idx) = set xs"
    unfolding gather_def set_map set_idx by (auto simp: in_set_conv_nth)
  then show ?thesis using v by (simp add: valid_logits_row_def list_all_iff list_ex_iff)
qed

lemma fl_round_exact [simp]: "fl_round (\<lambda>x. x) v = v"
  by (cases v) simp_all

lemma map_fl_round_exact [simp]: "map (fl_round (\<lambda>x. x)) vs = vs"
  by (induction vs) simp_all

lemma cumsum_f32_from_exact: "cumsum_f32_from (\<lambda>x. x) a xs = cumsum_from a xs"
  by (induction xs arbitrary: a) simp_all

lemma softmax_cumsum_exact: "softmax_cumsum (\<lambda>x. x) v = cumsum (softmax v)"
  by (simp add: softmax_cumsum_def cumsum_def cumsum_f32_from_exact)

text \<open>
  In exact arithmetic the cumulated probabilities end at 1, and the filter returns for
  every \<open>typical_mass\<close> up to 1.
\<close>

lemma typical_filter_row_returns_exact:
  assumes v: "valid_logits_row xs" and mass: "mass \<le> 1"
  shows "\<exists>ys. typical_filter_row (\<lambda>x. x) mass mt xs = Inr ys"
proof -
  define idx where "idx = argsort fl_key (typical_deviation xs)"
  define cum where "cum = cumsum (softmax (gather xs idx))"
  have vg: "valid_logits_row (gather xs idx)"
    unfolding idx_def using v by (intro gather_argsort_valid) simp_all
  have "length (softmax (gather xs idx)) = length xs" by (simp add: idx_def)
  then have ne: "softmax (gather xs idx) \<noteq> []"
    using valid_row_nonempty [OF v] by (metis length_0_conv)
  have "last cum = Fin (0 + sum_list (map fl_val (softmax (gather xs idx))))"
    unfolding cum_def cumsum_def using softmax_valid [OF vg] ne by (intro last_cumsum_from_fin) simp_all
  then have last: "last cum = Fin 1" using softmax_valid [OF vg] by simp
  have len_cum: "length cum = length xs" by (simp add: cum_def idx_def)
  then have "cum \<noteq> []" using valid_row_nonempty [OF v] by auto
  then have "last cum \<in> set cum" by (rule last_in_set)
  moreover have "\<not> fl_lt (last cum) (Fin mass)" using mass by (simp add: last fl_lt_def less_prod_def)
  ultimately have "length (filter (\<lambda>c. fl_lt c (Fin mass)) cum) < length cum"
    by (rule length_filter_less)
  then have "\<not> length xs \<le> length (filter (\<lambda>c. fl_lt c (Fin mass)) cum)"
    using len_cum by simp
  moreover have "length idx = length xs" by (simp add: idx_def)
  ultimately show ?thesis
    by (simp add: typical_filter_row_def Let_def softmax_cumsum_exact idx_def [symmetric]
          cum_def [symmetric])
qed


lemma filter_logits_valid:
  assumes rows: "\<forall>b \<in> set logits. \<forall>l \<in> set b. valid_logits_row l"
    and r: "filter_logits f32 logits top_k top_p typical_filtering typical_mass typical_min_tokens = Inr lf"
  shows "\<forall>b \<in> set lf. \<forall>l \<in> set b. valid_logits_row l"
proof -
  obtain lk where lk: "(case top_k of None \<Rightarrow> Inr logits
            | Some k \<Rightarrow> map_err (map_err (top_k_row k)) logits) = Inr lk"
    and lf: "lf = (case top_p of None \<Rightarrow> lk
               | Some p \<Rightarrow> if p < 1 then map (map (top_p_row f32 p)) lk else lk)"
    using r by (auto simp: filter_logits_def split: sum.splits if_splits)
  have nth_valid: "valid_logits_row (logits ! b ! s)" if "b < length logits" "s < length (logits ! b)" for b s
    using rows that by (meson nth_mem)
  have lk_valid: "\<forall>b \<in> set lk. \<forall>l \<in> set b. valid_logits_row l"
  proof (cases top_k)
    case None
    then show ?thesis using lk rows by simp
  next
    case (Some k)
    then have m: "map_err (map_err (top_k_row k)) logits = Inr lk" using lk by simp
    then have len: "length lk = length logits"
      and each: "\<And>b. b < length logits \<Longrightarrow> map_err (top_k_row k) (logits ! b) = Inr (lk ! b)"
      by (simp_all add: map_err_Inr_iff)
    have "valid_logits_row (lk ! b ! s)" if b: "b < length lk" and s: "s < length (lk ! b)" for b s
    proof -
      have b': "b < length logits" using b len by simp
      from each [OF b'] have l: "length (lk ! b) = length (logits ! b)"
        and c: "\<And>s. s < length (logits ! b) \<Longrightarrow> top_k_row k (logits ! b ! s) = Inr (lk ! b ! s)"
        by (simp_all add: map_err_Inr_iff)
      have s': "s < length (logits ! b)" using s l by simp
      show ?thesis using top_k_row_valid [OF nth_valid [OF b' s'] c [OF s']] .
    qed
    then show ?thesis by (metis in_set_conv_nth)
  qed
  show ?thesis
  proof (cases top_p)
    case None
    then show ?thesis using lf lk_valid by simp
  next
    case (Some p)
    then show ?thesis using lf lk_valid top_p_row_valid by (cases "p < 1") auto
  qed
qed

text \<open>
  Claim C7. A row of logits in which every entry is finite or \<open>-inf\<close> and at least one
  is finite (uniform, all-equal and one-hot rows are such rows) comes out of each filter
  as a row of the same kind: at least one token keeps a finite logit, and no filter
  produces a row that is all \<open>-inf\<close>. This holds however the cumulated probabilities
  are rounded. The top-k stage returns for every \<open>k\<close> from 1 to the row length and the
  top-p stage always returns; the typical filter can raise (when every cumulated
  probability is below \<open>typical_mass\<close>), and every row it returns is of that kind.
\<close>

theorem filters_keep_a_candidate:
  assumes v: "valid_logits_row xs"
  shows "(\<forall>ys. top_k_row k xs = Inr ys \<longrightarrow> valid_logits_row ys)
       \<and> (1 \<le> k \<and> k \<le> int (length xs) \<longrightarrow> (\<exists>ys. top_k_row k xs = Inr ys))
       \<and> valid_logits_row (top_p_row f32 p xs)
       \<and> (\<forall>ys. typical_filter_row f32 mass mt xs = Inr ys \<longrightarrow> valid_logits_row ys)"
proof (intro conjI allI impI)
  fix ys assume "top_k_row k xs = Inr ys"
  then show "valid_logits_row ys" by (rule top_k_row_valid [OF v])
next
  assume "1 \<le> k \<and> k \<le> int (length xs)"
  then show "\<exists>ys. top_k_row k xs = Inr ys" by (simp add: top_k_row_def Let_def)
next
  show "valid_logits_row (top_p_row f32 p xs)" using v by (rule top_p_row_valid)
next
  fix ys assume "typical_filter_row f32 mass mt xs = Inr ys"
  then show "valid_logits_row ys" by (rule typical_filter_row_valid [OF v])
qed

text \<open>
  The row \<open>[-inf, 0]\<close> in exact arithmetic: every filter returns a row with a
  candidate.
\<close>

theorem filters_keep_a_candidate_witness:
  "(\<exists>ys. top_k_row 1 [NInf, Fin 0] = Inr ys \<and> valid_logits_row ys)
   \<and> valid_logits_row (top_p_row (\<lambda>x. x) (1/2) [NInf, Fin 0])
   \<and> (\<exists>ys. typical_filter_row (\<lambda>x. x) (1/5) 1 [NInf, Fin 0] = Inr ys \<and> valid_logits_row ys)"
proof -
  have v: "valid_logits_row [NInf, Fin 0]" by (simp add: valid_logits_row_def)
  have k: "(1::int) \<le> 1 \<and> 1 \<le> int (length [NInf, Fin 0])" by simp
  have "(1/5 :: real) \<le> 1" by simp
  from typical_filter_row_returns_exact [OF v this]
  obtain ys where t: "typical_filter_row (\<lambda>x. x) (1/5) 1 [NInf, Fin 0] = Inr ys" by blast
  show ?thesis
    using filters_keep_a_candidate [OF v, of 1 "\<lambda>x. x" "1/2" "1/5" 1] k t by blast
qed

section \<open>Re-masking below a threshold\<close>

subsection \<open>Counting below an order statistic\<close>

lemma in_set_nthE: "x \<in> set xs \<Longrightarrow> \<exists>j < length xs. xs ! j = x"
  by (simp add: in_set_conv_nth)

lemma length_filter_sort_key:
  "length (filter P (sort_key key xs)) = length (filter P xs)"
proof -
  have "mset (filter P (sort_key key xs)) = mset (filter P xs)" by simp
  then show ?thesis by (metis size_mset)
qed

lemma filter_below_sorted:
  fixes key :: "'a \<Rightarrow> 'k::linorder"
  assumes s: "sorted (map key ys)" and k: "k < length ys"
  shows "filter (\<lambda>x. key x < key (ys ! k)) ys = filter (\<lambda>x. key x < key (ys ! k)) (take k ys)"
proof -
  have "\<not> key x < key (ys ! k)" if xin: "x \<in> set (drop k ys)" for x
  proof -
    obtain j where j: "j < length (drop k ys)" "drop k ys ! j = x"
      using in_set_nthE [OF xin] by blast
    then have "x = ys ! (k + j)" "k + j < length ys" by auto
    moreover have "map key ys ! k \<le> map key ys ! (k + j)"
      using s calculation(2) by (intro sorted_nth_mono) simp_all
    ultimately show ?thesis using k by simp
  qed
  then have e: "filter (\<lambda>x. key x < key (ys ! k)) (drop k ys) = []" by (simp add: filter_empty_conv)
  have "filter (\<lambda>x. key x < key (ys ! k)) ys
      = filter (\<lambda>x. key x < key (ys ! k)) (take k ys @ drop k ys)" by simp
  also have "\<dots> = filter (\<lambda>x. key x < key (ys ! k)) (take k ys)
                 @ filter (\<lambda>x. key x < key (ys ! k)) (drop k ys)" by (rule filter_append)
  also have "\<dots> = filter (\<lambda>x. key x < key (ys ! k)) (take k ys)" by (simp only: e append_Nil2)
  finally show ?thesis .
qed

lemma count_below_order_statistic_le:
  fixes key :: "'a \<Rightarrow> 'k::linorder"
  assumes k: "k < length xs"
  shows "length (filter (\<lambda>x. key x < key (sort_key key xs ! k)) xs) \<le> k"
proof -
  let ?ys = "sort_key key xs"
  have "length (filter (\<lambda>x. key x < key (?ys ! k)) xs) = length (filter (\<lambda>x. key x < key (?ys ! k)) ?ys)"
    by (rule length_filter_sort_key [symmetric])
  also have "\<dots> = length (filter (\<lambda>x. key x < key (?ys ! k)) (take k ?ys))"
    using k by (subst filter_below_sorted) (simp_all add: sorted_sort_key)
  also have "\<dots> \<le> length (take k ?ys)" by (rule length_filter_le)
  also have "\<dots> \<le> k" by simp
  finally show ?thesis .
qed

lemma count_below_order_statistic_eq:
  fixes key :: "'a \<Rightarrow> 'k::linorder"
  assumes k: "k < length xs" and d: "distinct (map key xs)"
  shows "length (filter (\<lambda>x. key x < key (sort_key key xs ! k)) xs) = k"
proof -
  let ?ys = "sort_key key xs"
  have s: "sorted (map key ?ys)" by (rule sorted_sort_key)
  have "mset (map key ?ys) = mset (map key xs)" by simp
  then have dy: "distinct (map key ?ys)" using d by (metis mset_eq_imp_distinct_iff)
  have below: "key x < key (?ys ! k)" if xin: "x \<in> set (take k ?ys)" for x
  proof -
    obtain j where j: "j < length (take k ?ys)" "take k ?ys ! j = x"
      using in_set_nthE [OF xin] by blast
    then have jk: "j < k" and x: "x = ?ys ! j" by auto
    have "map key ?ys ! j \<le> map key ?ys ! k"
      using s jk k by (intro sorted_nth_mono) simp_all
    moreover have "(map key ?ys ! j = map key ?ys ! k) = (j = k)"
      using dy jk k by (intro nth_eq_iff_index_eq) simp_all
    then have "map key ?ys ! j \<noteq> map key ?ys ! k" using jk by simp
    ultimately show ?thesis using jk k x by simp
  qed
  have "length (filter (\<lambda>x. key x < key (?ys ! k)) xs) = length (filter (\<lambda>x. key x < key (?ys ! k)) ?ys)"
    by (rule length_filter_sort_key [symmetric])
  also have "\<dots> = length (filter (\<lambda>x. key x < key (?ys ! k)) (take k ?ys))"
    using k by (subst filter_below_sorted) (simp_all add: sorted_sort_key)
  also have "\<dots> = length (take k ?ys)" using below by (simp add: filter_id_conv)
  also have "\<dots> = k" using k by simp
  finally show ?thesis .
qed


lemma inj_fl_key: "inj fl_key"
proof (rule injI)
  fix a b assume "fl_key a = fl_key b"
  then show "a = b" by (cases a; cases b) auto
qed

lemma length_filter_mono:
  "(\<And>x. x \<in> set xs \<Longrightarrow> P x \<Longrightarrow> Q x) \<Longrightarrow> length (filter P xs) \<le> length (filter Q xs)"
  by (induction xs) auto

lemma count_true_map: "count_true (map f xs) = int (length (filter f xs))"
  by (simp add: count_true_def filter_map comp_def)

lemma length_confidence_row [simp]: "length (confidence_row probs t u) = length probs"
  by (simp add: confidence_row_def)

lemma mask_by_random_topk_row_props:
  fixes temperature :: real and u :: "nat \<Rightarrow> real"
  assumes lo: "0 \<le> num" and hi: "num < int (length probs)"
  defines "conf \<equiv> confidence_row probs temperature u"
  defines "cut_off \<equiv> sort_key fl_key conf ! nat num"
  shows "\<exists>m. mask_by_random_topk_row num probs temperature u = Inr m \<and>
           length m = length probs \<and>
           (\<forall>i < length probs. m ! i = fl_lt (conf ! i) cut_off) \<and>
           count_true m \<le> num \<and>
           (\<forall>i < length probs. \<forall>j < length probs.
              m ! i \<and> \<not> m ! j \<longrightarrow> fl_key (conf ! i) < fl_key (conf ! j)) \<and>
           (distinct conf \<and> NaN \<notin> set conf \<longrightarrow> count_true m = num)"
proof -
  define m where "m = map (\<lambda>c. fl_lt c cut_off) conf"
  have k: "nat num < length conf" using lo hi by (simp add: conf_def)
  have res: "mask_by_random_topk_row num probs temperature u = Inr m"
    using lo hi by (simp add: mask_by_random_topk_row_def Let_def m_def cut_off_def conf_def)
  have len: "length m = length probs" by (simp add: m_def conf_def)
  have nth: "m ! i = fl_lt (conf ! i) cut_off" if "i < length probs" for i
    using that by (simp add: m_def conf_def)
  have "length (filter (\<lambda>c. fl_lt c cut_off) conf)
      \<le> length (filter (\<lambda>c. fl_key c < fl_key cut_off) conf)"
    by (rule length_filter_mono) (simp add: fl_lt_def)
  also have "\<dots> \<le> nat num"
    unfolding cut_off_def using k by (rule count_below_order_statistic_le)
  finally have cnt: "count_true m \<le> num" using lo by (simp add: m_def count_true_map)
  have low: "fl_key (conf ! i) < fl_key (conf ! j)"
    if i: "i < length probs" and j: "j < length probs" and mi: "m ! i" and mj: "\<not> m ! j" for i j
  proof -
    from mi nth [OF i] have a: "conf ! i \<noteq> NaN" "cut_off \<noteq> NaN" "fl_key (conf ! i) < fl_key cut_off"
      by (simp_all add: fl_lt_def)
    from mj nth [OF j] a(2) have "conf ! j = NaN \<or> \<not> fl_key (conf ! j) < fl_key cut_off"
      by (simp add: fl_lt_def)
    then show ?thesis
    proof
      assume "conf ! j = NaN"
      then show ?thesis using a(1) by (cases "conf ! i") (simp_all add: less_prod_def)
    next
      assume "\<not> fl_key (conf ! j) < fl_key cut_off"
      then show ?thesis using a(3) by simp
    qed
  qed
  have eq: "count_true m = num" if d: "distinct conf" and nn: "NaN \<notin> set conf"
  proof -
    have "cut_off \<in> set conf"
      unfolding cut_off_def using k by (metis length_sort nth_mem set_sort)
    then have "cut_off \<noteq> NaN" using nn by auto
    then have "filter (\<lambda>c. fl_lt c cut_off) conf = filter (\<lambda>c. fl_key c < fl_key cut_off) conf"
      using nn by (intro filter_cong) (auto simp: fl_lt_def)
    moreover have "distinct (map fl_key conf)"
      using d inj_fl_key by (simp add: distinct_map inj_on_def inj_def)
    then have "length (filter (\<lambda>c. fl_key c < fl_key cut_off) conf) = nat num"
      unfolding cut_off_def using k by (intro count_below_order_statistic_eq)
    ultimately show ?thesis using lo by (simp add: m_def count_true_map)
  qed
  show ?thesis using res len nth cnt low eq by blast
qed


section \<open>How many positions the re-masking marks\<close>

text \<open>
  What \<open>mask_by_random_topk\<close> computes. For target counts inside the rows
  (\<open>0 \<le> num_to_mask <\<close> row length) it returns a mask that marks in each row exactly
  the positions whose noisy confidence \<open>log(probability) + temperature * gumbel_noise\<close>
  is strictly below the sorted confidence at index \<open>num_to_mask\<close>. These are at most
  \<open>num_to_mask\<close> positions, every marked position lies below every unmarked one, and
  they are exactly \<open>num_to_mask\<close> when the confidences of the row are pairwise distinct
  and hold no NaN.
\<close>

lemma mask_by_random_topk_threshold:
  assumes len: "length num_to_mask = length probs" "length temperature = length probs"
    and rng: "\<forall>b < length probs. 0 \<le> num_to_mask ! b \<and> num_to_mask ! b < int (length (probs ! b))"
  shows "\<exists>m. mask_by_random_topk num_to_mask probs temperature u = Inr m \<and>
           length m = length probs \<and>
           (\<forall>b < length probs.
              length (m ! b) = length (probs ! b) \<and>
              (\<forall>i < length (probs ! b).
                 m ! b ! i = fl_lt (confidence_row (probs ! b) (temperature ! b) (u b) ! i)
                   (sort_key fl_key (confidence_row (probs ! b) (temperature ! b) (u b))
                      ! nat (num_to_mask ! b))) \<and>
              count_true (m ! b) \<le> num_to_mask ! b \<and>
              (\<forall>i < length (probs ! b). \<forall>j < length (probs ! b).
                 m ! b ! i \<and> \<not> m ! b ! j \<longrightarrow>
                   fl_key (confidence_row (probs ! b) (temperature ! b) (u b) ! i)
                     < fl_key (confidence_row (probs ! b) (temperature ! b) (u b) ! j)) \<and>
              (distinct (confidence_row (probs ! b) (temperature ! b) (u b)) \<and>
               NaN \<notin> set (confidence_row (probs ! b) (temperature ! b) (u b))
                 \<longrightarrow> count_true (m ! b) = num_to_mask ! b))"
proof -
  let ?row = "\<lambda>b. mask_by_random_topk_row (num_to_mask ! b) (probs ! b) (temperature ! b) (u b)"
  have "\<forall>b \<in> set [0..<length probs]. \<exists>y. ?row b = Inr y"
    using mask_by_random_topk_row_props rng by (metis atLeastLessThan_iff set_upt)
  then obtain m where m: "map_err ?row [0..<length probs] = Inr m"
    using map_err_total [of "[0..<length probs]" ?row] by blast
  then have lm: "length m = length probs" and each: "\<And>b. b < length probs \<Longrightarrow> ?row b = Inr (m ! b)"
    by (simp_all add: map_err_Inr_iff)
  have res: "mask_by_random_topk num_to_mask probs temperature u = Inr m"
    using len m by (simp add: mask_by_random_topk_def)
  have "length (m ! b) = length (probs ! b) \<and>
              (\<forall>i < length (probs ! b).
                 m ! b ! i = fl_lt (confidence_row (probs ! b) (temperature ! b) (u b) ! i)
                   (sort_key fl_key (confidence_row (probs ! b) (temperature ! b) (u b))
                      ! nat (num_to_mask ! b))) \<and>
              count_true (m ! b) \<le> num_to_mask ! b \<and>
              (\<forall>i < length (probs ! b). \<forall>j < length (probs ! b).
                 m ! b ! i \<and> \<not> m ! b ! j \<longrightarrow>
                   fl_key (confidence_row (probs ! b) (temperature ! b) (u b) ! i)
                     < fl_key (confidence_row (probs ! b) (temperature ! b) (u b) ! j)) \<and>
              (distinct (confidence_row (probs ! b) (temperature ! b) (u b)) \<and>
               NaN \<notin> set (confidence_row (probs ! b) (temperature ! b) (u b))
                 \<longrightarrow> count_true (m ! b) = num_to_mask ! b)" if b: "b < length probs" for b
  proof -
    have lo: "0 \<le> num_to_mask ! b" and hi: "num_to_mask ! b < int (length (probs ! b))"
      using rng b by simp_all
    from mask_by_random_topk_row_props [OF lo hi, of "temperature ! b" "u b"] each [OF b]
    show ?thesis by auto
  qed
  then show ?thesis using res lm by blast
qed

lemma mask_by_random_topk_threshold_example:
  "\<exists>m. mask_by_random_topk [1] [[Fin 1, Fin (1/2)]] [0] (\<lambda>b i. exp (- 1)) = Inr m \<and>
       count_true (m ! 0) = 1"
proof -
  have noise: "gumbel_noise (exp (- 1)) = Fin 0" by (simp add: gumbel_noise_def)
  have conf: "confidence_row [Fin 1, Fin (1/2)] 0 (\<lambda>i. exp (- 1)) = [Fin 0, Fin (ln (1/2))]"
    by (simp add: confidence_row_def noise upt_rec)
  have neg: "ln (1/2 :: real) < 0" by simp
  have d: "distinct [Fin 0, Fin (ln (1/2))] \<and> NaN \<notin> set [Fin 0, Fin (ln (1/2))]"
    using neg by simp
  have "\<forall>b < length [[Fin 1, Fin (1/2)]]. 0 \<le> [1::int] ! b \<and> [1] ! b < int (length ([[Fin 1, Fin (1/2)]] ! b))"
    by simp
  from mask_by_random_topk_threshold [OF _ _ this, of "[0]" "\<lambda>b i. exp (- 1)"]
  show ?thesis using conf d by auto
qed

text \<open>
  Claim C5 at a concrete input. Three positions of probability 1 with temperature 0
  have the confidence 0 each (the noise is multiplied by 0). With the target count 2 the cut-off
  is 0, no confidence lies strictly below it, and no position is marked, where the
  docstring (\<^verbatim>\<open>num_to_mask (int): number of tokens to mask\<close>) and the claim have two
  marked.
\<close>

theorem mask_by_random_topk_ties_unmarked:
  "mask_by_random_topk [2] [[Fin 1, Fin 1, Fin 1]] [0] (\<lambda>b i. exp (- 1))
       = Inr [[False, False, False]]
   \<and> count_true [False, False, False] = 0"
proof -
  have noise: "gumbel_noise (exp (- 1)) = Fin 0" by (simp add: gumbel_noise_def)
  show ?thesis
    by (simp add: mask_by_random_topk_def mask_by_random_topk_row_def confidence_row_def noise
          upt_rec fl_lt_def Let_def count_true_def)
qed

theorem mask_by_random_topk_ties_unmarked_witness:
  "\<exists>mk. mask_by_random_topk [2] [[Fin 1, Fin 1, Fin 1]] [0] (\<lambda>b i. exp (- 1)) = Inr mk
      \<and> count_true (mk ! 0) < 2"
  using mask_by_random_topk_ties_unmarked by (simp add: count_true_def)
section \<open>Facts on flattened grids\<close>

subsection \<open>Flattening and unflattening\<close>

lemma codebook_flatten1_eq:
  "g \<noteq> [] \<Longrightarrow>
     codebook_flatten1 g = map (\<lambda>i. g ! (i mod length g) ! (i div length g)) [0..<length (hd g) * length g]"
  by (cases g) (simp_all add: codebook_flatten1_def Let_def)

lemma length_codebook_flatten1:
  "g \<noteq> [] \<Longrightarrow> length (codebook_flatten1 g) = length (hd g) * length g"
  by (simp add: codebook_flatten1_eq)

lemma codebook_flatten1_nth:
  assumes c: "c < length g" and t: "t < length (hd g)"
  shows "codebook_flatten1 g ! (t * length g + c) = g ! c ! t"
proof -
  have ne: "g \<noteq> []" using assms by auto
  have lt: "t * length g + c < length (hd g) * length g"
  proof -
    have "t * length g + c < t * length g + length g" using c by simp
    also have "\<dots> = (t + 1) * length g" by simp
    also have "\<dots> \<le> length (hd g) * length g" using t by (intro mult_le_mono1) simp
    finally show ?thesis .
  qed
  have "(t * length g + c) mod length g = c" using c by simp
  moreover have "(t * length g + c) div length g = t"
  proof -
    have "length g \<noteq> 0" using ne by simp
    then have "(t * length g + c) div length g = t + c div length g" by (rule div_mult_self3)
    then show ?thesis using c by simp
  qed
  ultimately show ?thesis using lt by (simp add: codebook_flatten1_eq [OF ne])
qed

lemma length_codebook_unflatten1 [simp]: "length (codebook_unflatten1 n flat) = n"
  by (simp add: codebook_unflatten1_def)

lemma length_codebook_unflatten1_row:
  "c < n \<Longrightarrow> length (codebook_unflatten1 n flat ! c) = length flat div n"
  by (simp add: codebook_unflatten1_def)

lemma codebook_unflatten1_nth:
  "c < n \<Longrightarrow> t < length flat div n \<Longrightarrow> codebook_unflatten1 n flat ! c ! t = flat ! (t * n + c)"
  by (simp add: codebook_unflatten1_def)

lemma length_codebook_flatten [simp]: "length (codebook_flatten g) = length g"
  by (simp add: codebook_flatten_def)

lemma length_codebook_unflatten [simp]: "length (codebook_unflatten flat n) = length flat"
  by (simp add: codebook_unflatten_def)

subsection \<open>Elementwise operations\<close>

lemma length_where_tt: "length (where_tt c a b) = min (length c) (min (length a) (length b))"
  by (simp add: where_tt_def)

lemma where_tt_nth:
  assumes "r < length c" "r < length a" "r < length b"
    and "i < length (c ! r)" "i < length (a ! r)" "i < length (b ! r)"
  shows "where_tt c a b ! r ! i = (if c ! r ! i then a ! r ! i else b ! r ! i)"
  using assms by (simp add: where_tt_def)

lemma length_where_tt_row:
  assumes "r < length c" "r < length a" "r < length b"
  shows "length (where_tt c a b ! r) = min (length (c ! r)) (min (length (a ! r)) (length (b ! r)))"
  using assms by (simp add: where_tt_def)

lemma length_where_ts: "length (where_ts c a v) = min (length c) (length a)"
  by (simp add: where_ts_def)

lemma where_ts_nth:
  assumes "r < length c" "r < length a" "i < length (c ! r)" "i < length (a ! r)"
  shows "where_ts c a v ! r ! i = (if c ! r ! i then a ! r ! i else v)"
  using assms by (simp add: where_ts_def)

lemma length_where_ts_row:
  assumes "r < length c" "r < length a"
  shows "length (where_ts c a v ! r) = min (length (c ! r)) (length (a ! r))"
  using assms by (simp add: where_ts_def)

lemma length_where_st: "length (where_st c v b) = min (length c) (length b)"
  by (simp add: where_st_def)

lemma where_st_nth:
  assumes "r < length c" "r < length b" "i < length (c ! r)" "i < length (b ! r)"
  shows "where_st c v b ! r ! i = (if c ! r ! i then v else b ! r ! i)"
  using assms by (simp add: where_st_def)

lemma length_where_st_row:
  assumes "r < length c" "r < length b"
  shows "length (where_st c v b ! r) = min (length (c ! r)) (length (b ! r))"
  using assms by (simp add: where_st_def)

lemma bcast_rows_shape:
  assumes "bcast_rows ref xs = Inr ys"
  shows "map length ys = map length ref"
proof (cases "map length xs = map length ref")
  case True
  then show ?thesis using assms by (simp add: bcast_rows_def)
next
  case False
  then have ys: "ys = replicate (length ref) (hd xs)" and all: "\<forall>r \<in> set ref. length r = length (hd xs)"
    using assms by (auto simp: bcast_rows_def split: if_splits)
  show ?thesis unfolding ys using all by (auto simp: list_eq_iff_nth_eq)
qed

lemma map_length_eqD:
  assumes "map length ys = map length xs"
  shows "length ys = length xs" and "r < length xs \<Longrightarrow> length (ys ! r) = length (xs ! r)"
proof -
  show l: "length ys = length xs" using assms by (metis length_map)
  show "length (ys ! r) = length (xs ! r)" if "r < length xs"
    using assms that l by (metis nth_map)
qed


subsection \<open>Shapes\<close>

lemma wf_grid_nth:
  assumes "wf_grid m n_t g" "b < length g"
  shows "length (g ! b) = n_codebooks m" and "c < n_codebooks m \<Longrightarrow> length (g ! b ! c) = n_t"
proof -
  have gb: "g ! b \<in> set g" using assms(2) by simp
  show l: "length (g ! b) = n_codebooks m" using assms(1) gb by (simp add: wf_grid_def)
  show "length (g ! b ! c) = n_t" if "c < n_codebooks m"
  proof -
    have "g ! b ! c \<in> set (g ! b)" using that l by simp
    then show ?thesis using assms(1) gb by (simp add: wf_grid_def)
  qed
qed

lemma wf_gridI:
  assumes "\<And>b. b < length g \<Longrightarrow> length (g ! b) = n_codebooks m"
    and "\<And>b c. b < length g \<Longrightarrow> c < n_codebooks m \<Longrightarrow> length (g ! b ! c) = n_t"
  shows "wf_grid m n_t g"
  unfolding wf_grid_def
proof (intro ballI conjI)
  fix b assume b: "b \<in> set g"
  obtain i where i: "i < length g" "g ! i = b" using in_set_nthE [OF b] by blast
  show lb: "length b = n_codebooks m" using assms(1) [OF i(1)] i(2) by simp
  fix r assume r: "r \<in> set b"
  obtain c where c: "c < length b" "b ! c = r" using in_set_nthE [OF r] by blast
  show "length r = n_t" using assms(2) [OF i(1), of c] c lb i(2) by simp
qed

text \<open>The flattened predicted slice of a well-shaped grid, cell by cell.\<close>

lemma flat_slice:
  assumes wf: "wf_grid m n_t g" and k: "k < n_codebooks m" and b: "b < length g"
  shows "length (codebook_flatten (map (drop k) g) ! b) = n_t * (n_codebooks m - k)"
    and "c < n_codebooks m - k \<Longrightarrow> t < n_t \<Longrightarrow>
           codebook_flatten (map (drop k) g) ! b ! (t * (n_codebooks m - k) + c) = g ! b ! (k + c) ! t"
proof -
  let ?d = "drop k (g ! b)"
  have lb: "length (g ! b) = n_codebooks m" using wf_grid_nth(1) [OF wf b] .
  have ld: "length ?d = n_codebooks m - k" using lb by simp
  have ne: "?d \<noteq> []" using ld k by auto
  have hd: "hd ?d = g ! b ! k" using k lb by (simp add: hd_drop_conv_nth)
  have lh: "length (hd ?d) = n_t" unfolding hd using wf_grid_nth(2) [OF wf b k] .
  have fb: "codebook_flatten (map (drop k) g) ! b = codebook_flatten1 ?d"
    using b by (simp add: codebook_flatten_def)
  show "length (codebook_flatten (map (drop k) g) ! b) = n_t * (n_codebooks m - k)"
    unfolding fb using length_codebook_flatten1 [OF ne] lh ld by simp
  show "codebook_flatten (map (drop k) g) ! b ! (t * (n_codebooks m - k) + c) = g ! b ! (k + c) ! t"
    if c: "c < n_codebooks m - k" and t: "t < n_t"
  proof -
    have "codebook_flatten1 ?d ! (t * length ?d + c) = ?d ! c ! t"
      using c t ld lh by (intro codebook_flatten1_nth) simp_all
    moreover have "?d ! c = g ! b ! (k + c)" using c lb by simp
    ultimately show ?thesis unfolding fb using ld by simp
  qed
qed

lemma flat_index_decompose:
  fixes n i n_t :: nat
  assumes "0 < n" "i < n_t * n"
  shows "i mod n < n" "i div n < n_t" "(i div n) * n + i mod n = i"
proof -
  show "i mod n < n" using assms(1) by simp
  show "i div n < n_t" using assms by (simp add: less_mult_imp_div_less)
  show "(i div n) * n + i mod n = i" by simp
qed

lemma codebook_roundtrip1:
  assumes n: "0 < n" and len: "length flat = n_t * n"
  shows "codebook_flatten1 (codebook_unflatten1 n flat) = flat"
proof (rule nth_equalityI)
  let ?u = "codebook_unflatten1 n flat"
  have ne: "?u \<noteq> []" using n by (metis length_codebook_unflatten1 length_0_conv less_numeral_extra(3))
  have hd: "hd ?u = ?u ! 0" using ne by (simp add: hd_conv_nth)
  have lh: "length (hd ?u) = n_t" unfolding hd using n len by (simp add: length_codebook_unflatten1_row)
  show l: "length (codebook_flatten1 ?u) = length flat"
    using length_codebook_flatten1 [OF ne] lh len by simp
  fix i assume "i < length (codebook_flatten1 ?u)"
  then have i: "i < n_t * n" using l len by simp
  note d = flat_index_decompose [OF n i]
  have "codebook_flatten1 ?u ! ((i div n) * length ?u + i mod n) = ?u ! (i mod n) ! (i div n)"
    using d lh by (intro codebook_flatten1_nth) simp_all
  moreover have "?u ! (i mod n) ! (i div n) = flat ! ((i div n) * n + i mod n)"
    using d len n by (intro codebook_unflatten1_nth) simp_all
  ultimately show "codebook_flatten1 ?u ! i = flat ! i" using d(3) by simp
qed

section \<open>One generation step\<close>

subsection \<open>What one step computes\<close>

lemma fl_lt_add_PInf: "\<not> fl_lt (fl_add PInf x) y"
  by (cases x; cases y) (auto simp: fl_lt_def less_prod_def)

lemma mask_by_random_topk_row_InrD:
  assumes "mask_by_random_topk_row num probs temperature u = Inr mk"
  shows "length mk = length probs" and "0 \<le> num" and "num < int (length probs)"
    and "count_true mk \<le> num"
    and "i < length probs \<Longrightarrow> probs ! i = PInf \<Longrightarrow> \<not> mk ! i"
proof -
  from assms have lo: "0 \<le> num" and hi: "num < int (length probs)"
    by (auto simp: mask_by_random_topk_row_def Let_def split: if_splits)
  from mask_by_random_topk_row_props [OF lo hi, of temperature u] assms
  have len: "length mk = length probs"
    and nth: "\<And>i. i < length probs \<Longrightarrow> mk ! i = fl_lt (confidence_row probs temperature u ! i)
                (sort_key fl_key (confidence_row probs temperature u) ! nat num)"
    and cnt: "count_true mk \<le> num"
    by auto
  show "length mk = length probs" "0 \<le> num" "num < int (length probs)" "count_true mk \<le> num"
    using len lo hi cnt by simp_all
  show "\<not> mk ! i" if "i < length probs" "probs ! i = PInf"
    using nth [OF that(1)] that by (simp add: confidence_row_def fl_lt_add_PInf)
qed

lemma mask_by_random_topk_InrD:
  assumes "mask_by_random_topk num_to_mask probs temperature u = Inr mk"
  shows "length mk = length probs" and "length num_to_mask = length probs"
    and "b < length probs \<Longrightarrow>
           mask_by_random_topk_row (num_to_mask ! b) (probs ! b) (temperature ! b) (u b) = Inr (mk ! b)"
proof -
  from assms have len: "length num_to_mask = length probs" "length temperature = length probs"
    and m: "map_err (\<lambda>b. mask_by_random_topk_row (num_to_mask ! b) (probs ! b) (temperature ! b) (u b))
             [0..<length probs] = Inr mk"
    by (auto simp: mask_by_random_topk_def split: if_splits)
  show "length mk = length probs" "length num_to_mask = length probs"
    using m len by (simp_all add: map_err_Inr_iff)
  show "mask_by_random_topk_row (num_to_mask ! b) (probs ! b) (temperature ! b) (u b) = Inr (mk ! b)"
    if "b < length probs"
    using m that by (simp add: map_err_Inr_iff)
qed

lemma generate_step_InrD:
  assumes step: "generate_step f32 m forward gamma state temperature mask_temperature typical_filtering
       typical_mass typical_min_tokens top_p sample_cutoff rng = Inr state'"
  shows "\<exists>sampled0 probs0 sampled1 probs1 mask2.
           sample_from_logits f32 (step_logits forward state)
             (real (step state) / real (sampling_steps state) \<le> sample_cutoff)
             temperature None top_p typical_filtering typical_mass typical_min_tokens
             True (multinomial_u rng) = Inr (sampled0, Some probs0) \<and>
           bcast_rows (codebook_flatten (map (drop (n_conditioning_codebooks m)) (z_masked state)))
             sampled0 = Inr sampled1 \<and>
           bcast_rows (codebook_flatten (map (drop (n_conditioning_codebooks m)) (z_masked state)))
             probs0 = Inr probs1 \<and>
           mask_by_random_topk
             (if Suc (step state) \<noteq> sampling_steps state
              then map (\<lambda>mr. num_to_mask_row f32 gamma
                               (f32 (real (step state + 1) / real (sampling_steps state)))
                               (num_mask_tokens_at_start state) True (count_true mr))
                     (map (map (\<lambda>x. x = mask_token m))
                        (codebook_flatten (map (drop (n_conditioning_codebooks m)) (z_masked state))))
              else replicate (length (z state))
                     (num_to_mask_row f32 gamma
                        (f32 (real (step state + 1) / real (sampling_steps state)))
                        (num_mask_tokens_at_start state) False 0))
             (where_ts
                (map (map (\<lambda>x. x = mask_token m))
                   (codebook_flatten (map (drop (n_conditioning_codebooks m)) (z_masked state))))
                probs1 PInf)
             (replicate (length (z state))
                (f32 (mask_temperature
                       * f32 (1 - f32 (real (step state + 1) / real (sampling_steps state))))))
             (gumbel_u rng) = Inr mask2 \<and>
           state' = state \<lparr> z_masked :=
                               map2 (\<lambda>zb nb. take (n_conditioning_codebooks m) zb @ nb) (z state)
                                 (codebook_unflatten
                                    (where_st mask2 (mask_token m)
                                       (where_tt
                                          (map (map (\<lambda>x. x = mask_token m))
                                             (codebook_flatten
                                                (map (drop (n_conditioning_codebooks m)) (z_masked state))))
                                          sampled1
                                          (codebook_flatten
                                             (map (drop (n_conditioning_codebooks m)) (z_masked state)))))
                                    (n_infer_codebooks state)),
                             mask := codebook_unflatten mask2 (n_infer_codebooks state),
                             step := step state + 1 \<rparr>"
proof -
  let ?z_flat = "codebook_flatten (map (drop (n_conditioning_codebooks m)) (z_masked state))"
  let ?sample = "sample_from_logits f32 (step_logits forward state)
                  (real (step state) / real (sampling_steps state) \<le> sample_cutoff)
                  temperature None top_p typical_filtering typical_mass typical_min_tokens
                  True (multinomial_u rng)"
  from step have ss: "sampling_steps state \<noteq> 0"
    by (auto simp: generate_step_def split: if_splits)
  from step ss obtain sampled0 probs0 where smp: "?sample = Inr (sampled0, Some probs0)"
    by (auto simp: generate_step_def Let_def split: sum.splits prod.splits option.splits)
  from step ss smp obtain sampled1 where b1: "bcast_rows ?z_flat sampled0 = Inr sampled1"
    by (auto simp: generate_step_def Let_def split: sum.splits)
  from step ss smp b1 obtain probs1 where b2: "bcast_rows ?z_flat probs0 = Inr probs1"
    by (auto simp: generate_step_def Let_def split: sum.splits)
  let ?mask1 = "map (map (\<lambda>x. x = mask_token m)) ?z_flat"
  let ?r = "f32 (real (step state + 1) / real (sampling_steps state))"
  let ?num = "if Suc (step state) \<noteq> sampling_steps state
              then map (\<lambda>mr. num_to_mask_row f32 gamma ?r (num_mask_tokens_at_start state) True
                               (count_true mr)) ?mask1
              else replicate (length (z state))
                     (num_to_mask_row f32 gamma ?r (num_mask_tokens_at_start state) False 0)"
  let ?topk = "mask_by_random_topk ?num (where_ts ?mask1 probs1 PInf)
             (replicate (length (z state)) (f32 (mask_temperature * f32 (1 - ?r)))) (gumbel_u rng)"
  from step ss smp b1 b2 obtain mask2 where mk: "?topk = Inr mask2"
    by (cases "Suc (step state) = sampling_steps state")
       (auto simp: generate_step_def Let_def split: sum.splits)
  from step ss smp b1 b2 mk have
    "state' = state \<lparr> z_masked :=
                               map2 (\<lambda>zb nb. take (n_conditioning_codebooks m) zb @ nb) (z state)
                                 (codebook_unflatten
                                    (where_st mask2 (mask_token m) (where_tt ?mask1 sampled1 ?z_flat))
                                    (n_infer_codebooks state)),
                             mask := codebook_unflatten mask2 (n_infer_codebooks state),
                             step := step state + 1 \<rparr>"
    by (cases "Suc (step state) = sampling_steps state")
       (auto simp: generate_step_def Let_def split: sum.splits)
  then show ?thesis
    using smp b1 b2 mk by blast
qed


lemma generate_step_cells:
  assumes wf: "wf_state m n_t state"
    and step: "generate_step f32 m forward gamma state temperature mask_temperature typical_filtering
       typical_mass typical_min_tokens top_p sample_cutoff rng = Inr state'"
  shows "\<exists>mask2 sampled_z.
           length mask2 = length (z_masked state) \<and> length sampled_z = length (z_masked state) \<and>
           (\<forall>b < length (z_masked state).
              length (mask2 ! b) = n_t * (n_codebooks m - n_conditioning_codebooks m) \<and>
              length (sampled_z ! b) = n_t * (n_codebooks m - n_conditioning_codebooks m) \<and>
              (\<forall>i < n_t * (n_codebooks m - n_conditioning_codebooks m).
                 (mask2 ! b ! i \<longrightarrow>
                    codebook_flatten (map (drop (n_conditioning_codebooks m)) (z_masked state)) ! b ! i
                      = mask_token m) \<and>
                 (codebook_flatten (map (drop (n_conditioning_codebooks m)) (z_masked state)) ! b ! i
                    \<noteq> mask_token m \<longrightarrow>
                  sampled_z ! b ! i
                    = codebook_flatten (map (drop (n_conditioning_codebooks m)) (z_masked state)) ! b ! i)) \<and>
              (Suc (step state) \<noteq> sampling_steps state \<longrightarrow>
                 count_true (mask2 ! b)
                   \<le> num_to_mask_row f32 gamma (f32 (real (step state + 1) / real (sampling_steps state)))
                        (num_mask_tokens_at_start state) True
                        (count_true (map (\<lambda>x. x = mask_token m)
                           (codebook_flatten (map (drop (n_conditioning_codebooks m)) (z_masked state)) ! b))))) \<and>
           state' = state \<lparr> z_masked :=
                               map2 (\<lambda>zb nb. take (n_conditioning_codebooks m) zb @ nb) (z state)
                                 (codebook_unflatten (where_st mask2 (mask_token m) sampled_z)
                                    (n_codebooks m - n_conditioning_codebooks m)),
                             mask := codebook_unflatten mask2 (n_codebooks m - n_conditioning_codebooks m),
                             step := step state + 1 \<rparr>"
proof -
  let ?k = "n_conditioning_codebooks m"
  let ?n = "n_codebooks m - ?k"
  let ?B = "length (z_masked state)"
  let ?z_flat = "codebook_flatten (map (drop ?k) (z_masked state))"
  let ?mask1 = "map (map (\<lambda>x. x = mask_token m)) ?z_flat"
  let ?r = "f32 (real (step state + 1) / real (sampling_steps state))"
  let ?num = "if Suc (step state) \<noteq> sampling_steps state
              then map (\<lambda>mr. num_to_mask_row f32 gamma ?r (num_mask_tokens_at_start state) True
                               (count_true mr)) ?mask1
              else replicate (length (z state))
                     (num_to_mask_row f32 gamma ?r (num_mask_tokens_at_start state) False 0)"
  have wfz: "wf_grid m n_t (z_masked state)" and k: "?k < n_codebooks m"
    and ninf: "n_infer_codebooks state = ?n"
    using wf by (simp_all add: wf_state_def)
  from generate_step_InrD [OF step] obtain sampled0 probs0 sampled1 probs1 mask2 where
    b1: "bcast_rows ?z_flat sampled0 = Inr sampled1" and b2: "bcast_rows ?z_flat probs0 = Inr probs1"
    and mk: "mask_by_random_topk ?num (where_ts ?mask1 probs1 PInf)
               (replicate (length (z state)) (f32 (mask_temperature * f32 (1 - ?r)))) (gumbel_u rng)
             = Inr mask2"
    and st: "state' = state \<lparr> z_masked :=
                               map2 (\<lambda>zb nb. take ?k zb @ nb) (z state)
                                 (codebook_unflatten
                                    (where_st mask2 (mask_token m) (where_tt ?mask1 sampled1 ?z_flat))
                                    (n_infer_codebooks state)),
                             mask := codebook_unflatten mask2 (n_infer_codebooks state),
                             step := step state + 1 \<rparr>"
    by blast
  note s1 = bcast_rows_shape [OF b1] and p1 = bcast_rows_shape [OF b2]
  define sampled_z where "sampled_z = where_tt ?mask1 sampled1 ?z_flat"
  define sel where "sel = where_ts ?mask1 probs1 PInf"
  have lzf: "length ?z_flat = ?B" by simp
  have row_zf: "length (?z_flat ! b) = n_t * ?n" if "b < ?B" for b
    using flat_slice(1) [OF wfz k that] .
  have ls1: "length sampled1 = ?B" and lp1: "length probs1 = ?B"
    using map_length_eqD(1) [OF s1] map_length_eqD(1) [OF p1] by simp_all
  have row_s1: "length (sampled1 ! b) = n_t * ?n" if "b < ?B" for b
    using map_length_eqD(2) [OF s1, of b] that row_zf [OF that] by simp
  have row_p1: "length (probs1 ! b) = n_t * ?n" if "b < ?B" for b
    using map_length_eqD(2) [OF p1, of b] that row_zf [OF that] by simp
  have lsz: "length sampled_z = ?B" by (simp add: sampled_z_def length_where_tt ls1)
  have lsel: "length sel = ?B" by (simp add: sel_def length_where_ts lp1)
  have row_sz: "length (sampled_z ! b) = n_t * ?n" if "b < ?B" for b
    unfolding sampled_z_def using that ls1 row_s1 [OF that] row_zf [OF that]
    by (simp add: length_where_tt_row)
  have row_sel: "length (sel ! b) = n_t * ?n" if "b < ?B" for b
    unfolding sel_def using that lp1 row_p1 [OF that] row_zf [OF that]
    by (simp add: length_where_ts_row)
  have sz_keep: "sampled_z ! b ! i = ?z_flat ! b ! i"
    if "b < ?B" "i < n_t * ?n" "?z_flat ! b ! i \<noteq> mask_token m" for b i
    unfolding sampled_z_def using that ls1 row_s1 [OF that(1)] row_zf [OF that(1)]
    by (simp add: where_tt_nth)
  have sel_inf: "sel ! b ! i = PInf"
    if "b < ?B" "i < n_t * ?n" "?z_flat ! b ! i \<noteq> mask_token m" for b i
    unfolding sel_def using that lp1 row_p1 [OF that(1)] row_zf [OF that(1)]
    by (simp add: where_ts_nth)
  have mk': "mask_by_random_topk ?num sel
               (replicate (length (z state)) (f32 (mask_temperature * f32 (1 - ?r)))) (gumbel_u rng) = Inr mask2"
    using mk by (simp add: sel_def)
  have lm2: "length mask2 = ?B" using mask_by_random_topk_InrD(1) [OF mk'] lsel by simp
  have row: "mask_by_random_topk_row (?num ! b) (sel ! b)
               (replicate (length (z state)) (f32 (mask_temperature * f32 (1 - ?r))) ! b)
               (gumbel_u rng b)
             = Inr (mask2 ! b)" if "b < ?B" for b
  proof -
    have "b < length sel" using that lsel by simp
    from mask_by_random_topk_InrD(3) [OF mk' this] show ?thesis .
  qed
  have row_m2: "length (mask2 ! b) = n_t * ?n" if "b < ?B" for b
    using mask_by_random_topk_row_InrD(1) [OF row [OF that]] row_sel [OF that] by simp
  have m2_keep: "\<not> mask2 ! b ! i"
    if "b < ?B" "i < n_t * ?n" "?z_flat ! b ! i \<noteq> mask_token m" for b i
    using mask_by_random_topk_row_InrD(5) [OF row [OF that(1)], of i] sel_inf [OF that]
      row_sel [OF that(1)] that(2) by simp
  have cnt: "count_true (mask2 ! b)
       \<le> num_to_mask_row f32 gamma ?r (num_mask_tokens_at_start state) True
            (count_true (map (\<lambda>x. x = mask_token m) (?z_flat ! b)))"
    if "b < ?B" "Suc (step state) \<noteq> sampling_steps state" for b
  proof -
    have "?num ! b = num_to_mask_row f32 gamma ?r (num_mask_tokens_at_start state) True
            (count_true (map (\<lambda>x. x = mask_token m) (?z_flat ! b)))"
      using that by simp
    then show ?thesis using mask_by_random_topk_row_InrD(4) [OF row [OF that(1)]] by simp
  qed
  have st': "state' = state \<lparr> z_masked :=
                               map2 (\<lambda>zb nb. take ?k zb @ nb) (z state)
                                 (codebook_unflatten (where_st mask2 (mask_token m) sampled_z) ?n),
                             mask := codebook_unflatten mask2 ?n,
                             step := step state + 1 \<rparr>"
    using st by (simp add: sampled_z_def ninf)
  show ?thesis
    using lm2 lsz row_m2 row_sz sz_keep m2_keep cnt st'
    by (intro exI [of _ mask2] exI [of _ sampled_z]) blast
qed


lemma generate_step_effect:
  assumes wf: "wf_state m n_t state"
    and step: "generate_step f32 m forward gamma state temperature mask_temperature typical_filtering
       typical_mass typical_min_tokens top_p sample_cutoff rng = Inr state'"
  shows "wf_state m n_t state'"
    and "z state' = z state" and "length (z_masked state') = length (z_masked state)"
    and "step state' = step state + 1" and "sampling_steps state' = sampling_steps state"
    and "nb state' = nb state" and "cfg_guidance state' = cfg_guidance state"
    and "num_mask_tokens_at_start state' = num_mask_tokens_at_start state"
    and "b < length (z_masked state) \<Longrightarrow>
           take (n_conditioning_codebooks m) (z_masked state' ! b)
             = take (n_conditioning_codebooks m) (z state ! b)"
    and "b < length (z_masked state) \<Longrightarrow> n_conditioning_codebooks m \<le> c \<Longrightarrow> c < n_codebooks m \<Longrightarrow>
           t < n_t \<Longrightarrow> z_masked state ! b ! c ! t \<noteq> mask_token m \<Longrightarrow>
           z_masked state' ! b ! c ! t = z_masked state ! b ! c ! t"
proof -
  let ?k = "n_conditioning_codebooks m"
  let ?n = "n_codebooks m - ?k"
  let ?B = "length (z_masked state)"
  let ?z_flat = "codebook_flatten (map (drop ?k) (z_masked state))"
  have wfz: "wf_grid m n_t (z_masked state)" and wfo: "wf_grid m n_t (z state)"
    and k: "?k < n_codebooks m" and lz: "length (z state) = ?B"
    and ninf: "n_infer_codebooks state = ?n"
    using wf by (simp_all add: wf_state_def)
  have n: "0 < ?n" using k by simp
  from generate_step_cells [OF wf step] obtain mask2 sampled_z where
    lm2: "length mask2 = ?B" and lsz: "length sampled_z = ?B"
    and rows: "\<And>b. b < ?B \<Longrightarrow> length (mask2 ! b) = n_t * ?n \<and> length (sampled_z ! b) = n_t * ?n"
    and cells: "\<And>b i. b < ?B \<Longrightarrow> i < n_t * ?n \<Longrightarrow>
                 (mask2 ! b ! i \<longrightarrow> ?z_flat ! b ! i = mask_token m) \<and>
                 (?z_flat ! b ! i \<noteq> mask_token m \<longrightarrow> sampled_z ! b ! i = ?z_flat ! b ! i)"
    and st: "state' = state \<lparr> z_masked :=
                               map2 (\<lambda>zb nb. take ?k zb @ nb) (z state)
                                 (codebook_unflatten (where_st mask2 (mask_token m) sampled_z) ?n),
                             mask := codebook_unflatten mask2 ?n,
                             step := step state + 1 \<rparr>"
    by blast
  define z_new where "z_new = where_st mask2 (mask_token m) sampled_z"
  have lzn: "length z_new = ?B" by (simp add: z_new_def length_where_st lm2 lsz)
  have row_zn: "length (z_new ! b) = n_t * ?n" if "b < ?B" for b
    unfolding z_new_def using that lm2 lsz rows [OF that] by (simp add: length_where_st_row)
  have zm': "z_masked state' = map2 (\<lambda>zb nb. take ?k zb @ nb) (z state) (codebook_unflatten z_new ?n)"
    using st by (simp add: z_new_def)
  show "z state' = z state" "step state' = step state + 1" "sampling_steps state' = sampling_steps state"
    "nb state' = nb state" "cfg_guidance state' = cfg_guidance state"
    "num_mask_tokens_at_start state' = num_mask_tokens_at_start state"
    using st by simp_all
  show len': "length (z_masked state') = ?B" by (simp add: zm' lz lzn)
  have entry: "z_masked state' ! b = take ?k (z state ! b) @ codebook_unflatten1 ?n (z_new ! b)"
    if "b < ?B" for b
    using that lz lzn by (simp add: zm' codebook_unflatten_def)
  have lzb: "length (z state ! b) = n_codebooks m" if "b < ?B" for b
    using wf_grid_nth(1) [OF wfo] that lz by simp
  show cond: "take ?k (z_masked state' ! b) = take ?k (z state ! b)" if "b < ?B" for b
    using entry [OF that] lzb [OF that] k by simp
  have pred: "z_masked state' ! b ! (?k + c) ! t = z_new ! b ! (t * ?n + c)"
    if b: "b < ?B" and c: "c < ?n" and t: "t < n_t" for b c t
  proof -
    have "z_masked state' ! b ! (?k + c) = codebook_unflatten1 ?n (z_new ! b) ! c"
      using entry [OF b] lzb [OF b] k by (simp add: nth_append)
    moreover have "t < length (z_new ! b) div ?n" using row_zn [OF b] t n by simp
    ultimately show ?thesis using c by (simp add: codebook_unflatten1_nth)
  qed
  show "z_masked state' ! b ! c ! t = z_masked state ! b ! c ! t"
    if b: "b < ?B" and c1: "?k \<le> c" and c2: "c < n_codebooks m" and t: "t < n_t"
      and un: "z_masked state ! b ! c ! t \<noteq> mask_token m"
  proof -
    define c' where "c' = c - ?k"
    have c': "c' < ?n" "c = ?k + c'" using c1 c2 by (simp_all add: c'_def)
    have i: "t * ?n + c' < n_t * ?n"
    proof -
      have "t * ?n + c' < t * ?n + ?n" using c'(1) by simp
      also have "\<dots> = (t + 1) * ?n" by simp
      also have "\<dots> \<le> n_t * ?n" using t by (intro mult_le_mono1) simp
      finally show ?thesis .
    qed
    have zf: "?z_flat ! b ! (t * ?n + c') = z_masked state ! b ! c ! t"
      using flat_slice(2) [OF wfz k b c'(1) t] c'(2) by simp
    then have un': "?z_flat ! b ! (t * ?n + c') \<noteq> mask_token m" using un by simp
    have keep: "sampled_z ! b ! (t * ?n + c') = ?z_flat ! b ! (t * ?n + c')"
      and nm: "\<not> mask2 ! b ! (t * ?n + c')"
      using cells [OF b i] un' by auto
    have "z_new ! b ! (t * ?n + c') = sampled_z ! b ! (t * ?n + c')"
      unfolding z_new_def using b i lm2 lsz rows [OF b] nm by (simp add: where_st_nth)
    then show ?thesis using pred [OF b c'(1) t] keep zf c'(2) by simp
  qed
  have "wf_grid m n_t (z_masked state')"
  proof (rule wf_gridI)
    fix b assume "b < length (z_masked state')"
    then have b: "b < ?B" using len' by simp
    show "length (z_masked state' ! b) = n_codebooks m"
      using entry [OF b] lzb [OF b] k by simp
    fix c assume c: "c < n_codebooks m"
    show "length (z_masked state' ! b ! c) = n_t"
    proof (cases "c < ?k")
      case True
      then have "z_masked state' ! b ! c = z state ! b ! c"
        using entry [OF b] lzb [OF b] k by (simp add: nth_append)
      then show ?thesis using wf_grid_nth(2) [OF wfo _ c, of b] b lz by simp
    next
      case False
      then have "z_masked state' ! b ! c = codebook_unflatten1 ?n (z_new ! b) ! (c - ?k)"
        using entry [OF b] lzb [OF b] k by (simp add: nth_append)
      moreover have "c - ?k < ?n" using False c by simp
      ultimately show ?thesis
        using row_zn [OF b] n by (simp add: length_codebook_unflatten1_row)
    qed
  qed
  then show "wf_state m n_t state'"
    using wf len' st by (simp add: wf_state_def)
qed


text \<open>One batch row of a step: the call of the re-masking and the cells of the new grid.\<close>

lemma count_true_less_witness:
  assumes len: "length ms = length ks" and lt: "count_true ms < count_true ks"
  shows "\<exists>i < length ks. ks ! i \<and> \<not> ms ! i"
proof (rule ccontr)
  assume "\<not> (\<exists>i < length ks. ks ! i \<and> \<not> ms ! i)"
  then have "list_all2 (\<lambda>k m. k \<longrightarrow> m) ks ms"
    using len by (auto simp: list_all2_conv_all_nth)
  then have "length (filter (\<lambda>v. v) ks) \<le> length (filter (\<lambda>v. v) ms)"
    by (induction rule: list_all2_induct) auto
  then show False using lt by (simp add: count_true_def)
qed

lemma generate_step_row:
  assumes wf: "wf_state m n_t state"
    and step: "generate_step f32 m forward gamma state temperature mask_temperature typical_filtering
       typical_mass typical_min_tokens top_p sample_cutoff rng = Inr state'"
    and b: "b < length (z_masked state)"
  shows "\<exists>sampled0 probs0 sampled probs.
           sample_from_logits f32 (step_logits forward state)
             (real (step state) / real (sampling_steps state) \<le> sample_cutoff)
             temperature None top_p typical_filtering typical_mass typical_min_tokens
             True (multinomial_u rng) = Inr (sampled0, Some probs0) \<and>
           bcast_rows (codebook_flatten (map (drop (n_conditioning_codebooks m)) (z_masked state)))
             sampled0 = Inr sampled \<and>
           bcast_rows (codebook_flatten (map (drop (n_conditioning_codebooks m)) (z_masked state)))
             probs0 = Inr probs \<and>
           mask_by_random_topk_row
             (num_to_mask_row f32 gamma (f32 (real (step state + 1) / real (sampling_steps state)))
                (num_mask_tokens_at_start state) (Suc (step state) \<noteq> sampling_steps state)
                (count_true (map (\<lambda>x. x = mask_token m)
                   (codebook_flatten (map (drop (n_conditioning_codebooks m)) (z_masked state)) ! b))))
             (where_ts
                (map (map (\<lambda>x. x = mask_token m))
                   (codebook_flatten (map (drop (n_conditioning_codebooks m)) (z_masked state))))
                probs PInf ! b)
             (f32 (mask_temperature
                    * f32 (1 - f32 (real (step state + 1) / real (sampling_steps state)))))
             (gumbel_u rng b)
             = Inr (codebook_flatten (mask state') ! b) \<and>
           length (where_ts
                (map (map (\<lambda>x. x = mask_token m))
                   (codebook_flatten (map (drop (n_conditioning_codebooks m)) (z_masked state))))
                probs PInf ! b) = n_t * (n_codebooks m - n_conditioning_codebooks m) \<and>
           (\<forall>i < n_t * (n_codebooks m - n_conditioning_codebooks m).
              codebook_flatten (map (drop (n_conditioning_codebooks m)) (z_masked state')) ! b ! i
                = (if codebook_flatten (mask state') ! b ! i then mask_token m
                   else if codebook_flatten (map (drop (n_conditioning_codebooks m)) (z_masked state)) ! b ! i
                           = mask_token m
                     then sampled ! b ! i
                   else codebook_flatten (map (drop (n_conditioning_codebooks m)) (z_masked state)) ! b ! i))"
proof -
  let ?k = "n_conditioning_codebooks m"
  let ?n = "n_codebooks m - ?k"
  let ?B = "length (z_masked state)"
  let ?z_flat = "codebook_flatten (map (drop ?k) (z_masked state))"
  let ?mask1 = "map (map (\<lambda>x. x = mask_token m)) ?z_flat"
  let ?r = "f32 (real (step state + 1) / real (sampling_steps state))"
  let ?num = "if Suc (step state) \<noteq> sampling_steps state
              then map (\<lambda>mr. num_to_mask_row f32 gamma ?r (num_mask_tokens_at_start state) True
                               (count_true mr)) ?mask1
              else replicate (length (z state))
                     (num_to_mask_row f32 gamma ?r (num_mask_tokens_at_start state) False 0)"
  let ?temp = "f32 (mask_temperature * f32 (1 - ?r))"
  have wfz: "wf_grid m n_t (z_masked state)" and wfo: "wf_grid m n_t (z state)"
    and k: "?k < n_codebooks m" and lz: "length (z state) = ?B"
    and ninf: "n_infer_codebooks state = ?n"
    using wf by (simp_all add: wf_state_def)
  have n: "0 < ?n" using k by simp
  from generate_step_InrD [OF step] obtain sampled0 probs0 sampled1 probs1 mask2 where
    smp: "sample_from_logits f32 (step_logits forward state)
             (real (step state) / real (sampling_steps state) \<le> sample_cutoff)
             temperature None top_p typical_filtering typical_mass typical_min_tokens
             True (multinomial_u rng) = Inr (sampled0, Some probs0)"
    and b1: "bcast_rows ?z_flat sampled0 = Inr sampled1" and b2: "bcast_rows ?z_flat probs0 = Inr probs1"
    and mk: "mask_by_random_topk ?num (where_ts ?mask1 probs1 PInf)
               (replicate (length (z state)) ?temp) (gumbel_u rng) = Inr mask2"
    and st: "state' = state \<lparr> z_masked :=
                               map2 (\<lambda>zb nb. take ?k zb @ nb) (z state)
                                 (codebook_unflatten
                                    (where_st mask2 (mask_token m) (where_tt ?mask1 sampled1 ?z_flat))
                                    (n_infer_codebooks state)),
                             mask := codebook_unflatten mask2 (n_infer_codebooks state),
                             step := step state + 1 \<rparr>"
    by blast
  note s1 = bcast_rows_shape [OF b1] and p1 = bcast_rows_shape [OF b2]
  define sampled_z where "sampled_z = where_tt ?mask1 sampled1 ?z_flat"
  define sel where "sel = where_ts ?mask1 probs1 PInf"
  define z_new where "z_new = where_st mask2 (mask_token m) sampled_z"
  have lzf: "length ?z_flat = ?B" by simp
  have row_zf: "length (?z_flat ! b) = n_t * ?n" using flat_slice(1) [OF wfz k b] .
  have ls1: "length sampled1 = ?B" and lp1: "length probs1 = ?B"
    using map_length_eqD(1) [OF s1] map_length_eqD(1) [OF p1] by simp_all
  have row_s1: "length (sampled1 ! b) = n_t * ?n"
    using map_length_eqD(2) [OF s1, of b] b row_zf by simp
  have row_p1: "length (probs1 ! b) = n_t * ?n"
    using map_length_eqD(2) [OF p1, of b] b row_zf by simp
  have lsz: "length sampled_z = ?B" by (simp add: sampled_z_def length_where_tt ls1)
  have lsel: "length sel = ?B" by (simp add: sel_def length_where_ts lp1)
  have row_sz: "length (sampled_z ! b) = n_t * ?n"
    unfolding sampled_z_def using b ls1 row_s1 row_zf by (simp add: length_where_tt_row)
  have row_sel: "length (sel ! b) = n_t * ?n"
    unfolding sel_def using b lp1 row_p1 row_zf by (simp add: length_where_ts_row)
  have sz_nth: "sampled_z ! b ! i = (if ?z_flat ! b ! i = mask_token m then sampled1 ! b ! i
                                     else ?z_flat ! b ! i)"
    if "i < n_t * ?n" for i
    unfolding sampled_z_def using b that ls1 row_s1 row_zf by (simp add: where_tt_nth)
  have mk': "mask_by_random_topk ?num sel (replicate (length (z state)) ?temp) (gumbel_u rng) = Inr mask2"
    using mk by (simp add: sel_def)
  have lm2: "length mask2 = ?B" using mask_by_random_topk_InrD(1) [OF mk'] lsel by simp
  have bsel: "b < length sel" using b lsel by simp
  have row0: "mask_by_random_topk_row (?num ! b) (sel ! b) (replicate (length (z state)) ?temp ! b)
               (gumbel_u rng b) = Inr (mask2 ! b)"
    using mask_by_random_topk_InrD(3) [OF mk' bsel] .
  have numb: "?num ! b = num_to_mask_row f32 gamma ?r (num_mask_tokens_at_start state)
                 (Suc (step state) \<noteq> sampling_steps state)
                 (count_true (map (\<lambda>x. x = mask_token m) (?z_flat ! b)))"
  proof (cases "Suc (step state) = sampling_steps state")
    case True
    then show ?thesis using b lz by (simp add: num_to_mask_row_def)
  next
    case False
    then show ?thesis using b by simp
  qed
  have tempb: "replicate (length (z state)) ?temp ! b = ?temp" using b lz by simp
  have row: "mask_by_random_topk_row
               (num_to_mask_row f32 gamma ?r (num_mask_tokens_at_start state)
                 (Suc (step state) \<noteq> sampling_steps state)
                 (count_true (map (\<lambda>x. x = mask_token m) (?z_flat ! b))))
               (sel ! b) ?temp (gumbel_u rng b) = Inr (mask2 ! b)"
    using row0 unfolding numb tempb .
  have row_m2: "length (mask2 ! b) = n_t * ?n"
    using mask_by_random_topk_row_InrD(1) [OF row] row_sel by simp
  have "codebook_flatten (mask state') ! b = codebook_flatten1 (codebook_unflatten1 ?n (mask2 ! b))"
    using st b lm2 ninf by (simp add: codebook_flatten_def codebook_unflatten_def)
  then have eq: "codebook_flatten (mask state') ! b = mask2 ! b"
    using codebook_roundtrip1 [OF n row_m2] by simp
  have lzn: "length z_new = ?B" by (simp add: z_new_def length_where_st lm2 lsz)
  have row_zn: "length (z_new ! b) = n_t * ?n"
    unfolding z_new_def using b lm2 lsz row_m2 row_sz by (simp add: length_where_st_row)
  have zn_nth: "z_new ! b ! i = (if mask2 ! b ! i then mask_token m else sampled_z ! b ! i)"
    if "i < n_t * ?n" for i
    unfolding z_new_def using b that lm2 lsz row_m2 row_sz by (simp add: where_st_nth)
  have zm': "z_masked state' = map2 (\<lambda>zb nb. take ?k zb @ nb) (z state) (codebook_unflatten z_new ?n)"
    using st by (simp add: z_new_def sampled_z_def ninf)
  have entry: "z_masked state' ! b = take ?k (z state ! b) @ codebook_unflatten1 ?n (z_new ! b)"
    using b lz lzn by (simp add: zm' codebook_unflatten_def)
  have lzb: "length (z state ! b) = n_codebooks m"
    using wf_grid_nth(1) [OF wfo] b lz by simp
  have len': "length (z_masked state') = ?B" by (simp add: zm' lz lzn)
  have "drop ?k (z_masked state' ! b) = codebook_unflatten1 ?n (z_new ! b)"
    using entry lzb k by simp
  then have "codebook_flatten (map (drop ?k) (z_masked state')) ! b
           = codebook_flatten1 (codebook_unflatten1 ?n (z_new ! b))"
    using b len' by (simp add: codebook_flatten_def)
  then have eqz: "codebook_flatten (map (drop ?k) (z_masked state')) ! b = z_new ! b"
    using codebook_roundtrip1 [OF n row_zn] by simp
  have cells: "\<forall>i < n_t * ?n.
              codebook_flatten (map (drop ?k) (z_masked state')) ! b ! i
                = (if codebook_flatten (mask state') ! b ! i then mask_token m
                   else if ?z_flat ! b ! i = mask_token m then sampled1 ! b ! i
                   else ?z_flat ! b ! i)"
    unfolding eqz eq using zn_nth sz_nth by simp
  show ?thesis
    using smp b1 b2 row [unfolded sel_def eq [symmetric]] row_sel [unfolded sel_def] cells
    by blast
qed

text \<open>A run of steps, by induction on the list of iterations.\<close>

lemma generate_run_effect:
  assumes wf: "wf_state m n_t state"
    and run: "fold_err (\<lambda>k s. generate_step f32 m forward gamma s temperature mask_temperature
                 typical_filtering typical_mass typical_min_tokens top_p sample_cutoff (seed k))
               ks state = Inr state'"
  shows "wf_state m n_t state' \<and> z state' = z state \<and>
         length (z_masked state') = length (z_masked state) \<and> nb state' = nb state \<and>
         (\<forall>b c t. b < length (z_masked state) \<and> n_conditioning_codebooks m \<le> c \<and>
                  c < n_codebooks m \<and> t < n_t \<and> z_masked state ! b ! c ! t \<noteq> mask_token m \<longrightarrow>
                  z_masked state' ! b ! c ! t = z_masked state ! b ! c ! t) \<and>
         (\<forall>b < length (z_masked state).
            take (n_conditioning_codebooks m) (z_masked state ! b)
              = take (n_conditioning_codebooks m) (z state ! b) \<longrightarrow>
            take (n_conditioning_codebooks m) (z_masked state' ! b)
              = take (n_conditioning_codebooks m) (z state ! b))"
  using assms
proof (induction ks arbitrary: state)
  case Nil
  then show ?case by simp
next
  case (Cons k ks)
  from Cons.prems(2) obtain s1 where
    s1: "generate_step f32 m forward gamma state temperature mask_temperature
                 typical_filtering typical_mass typical_min_tokens top_p sample_cutoff (seed k) = Inr s1"
    and rest: "fold_err (\<lambda>k s. generate_step f32 m forward gamma s temperature mask_temperature
                 typical_filtering typical_mass typical_min_tokens top_p sample_cutoff (seed k))
               ks s1 = Inr state'"
    by (auto split: sum.splits)
  note e = generate_step_effect [OF Cons.prems(1) s1]
  have ih: "wf_state m n_t state' \<and> z state' = z s1 \<and>
         length (z_masked state') = length (z_masked s1) \<and> nb state' = nb s1 \<and>
         (\<forall>b c t. b < length (z_masked s1) \<and> n_conditioning_codebooks m \<le> c \<and>
                  c < n_codebooks m \<and> t < n_t \<and> z_masked s1 ! b ! c ! t \<noteq> mask_token m \<longrightarrow>
                  z_masked state' ! b ! c ! t = z_masked s1 ! b ! c ! t) \<and>
         (\<forall>b < length (z_masked s1).
            take (n_conditioning_codebooks m) (z_masked s1 ! b)
              = take (n_conditioning_codebooks m) (z s1 ! b) \<longrightarrow>
            take (n_conditioning_codebooks m) (z_masked state' ! b)
              = take (n_conditioning_codebooks m) (z s1 ! b))"
    using Cons.IH [OF e(1) rest] .
  have stay: "z_masked state' ! b ! c ! t = z_masked state ! b ! c ! t"
    if "b < length (z_masked state)" "n_conditioning_codebooks m \<le> c" "c < n_codebooks m" "t < n_t"
      "z_masked state ! b ! c ! t \<noteq> mask_token m" for b c t
  proof -
    have keep: "z_masked s1 ! b ! c ! t = z_masked state ! b ! c ! t"
      using e(10) [OF that] .
    then have "z_masked state' ! b ! c ! t = z_masked s1 ! b ! c ! t"
      using ih that e(3) by simp
    then show ?thesis using keep by simp
  qed
  have cond: "take (n_conditioning_codebooks m) (z_masked state' ! b)
              = take (n_conditioning_codebooks m) (z state ! b)"
    if "b < length (z_masked state)" for b
  proof -
    have "take (n_conditioning_codebooks m) (z_masked s1 ! b)
              = take (n_conditioning_codebooks m) (z s1 ! b)"
      using e(9) [OF that] e(2) by simp
    then show ?thesis using ih that e(2) e(3) by simp
  qed
  show ?case using ih e(2) e(3) e(6) stay cond by simp
qed
section \<open>A step on the smallest model\<close>

lemma gumbel_noise_exp: "gumbel_noise (exp (- 1)) = Fin 0"
  by (simp add: gumbel_noise_def)

lemma sample_example:
  "sample_from_logits (\<lambda>x. x) [[[Fin 0], [Fin 0]]] False 1 None None False (1/5) 1 True (\<lambda>b i. 0)
     = Inr ([[0, 0]], Some [[Fin 1, Fin 1]])"
  by (simp add: sample_from_logits_def filter_logits_def argmax_token_def argmax_def token_probs_def
        softmax_def fl_maximum_def fl_max_def fl_lt_def fl_sub_def fl_sum_def Let_def)

lemma topk_example:
  "mask_by_random_topk [1] [[PInf, Fin 1]] [2/3] (\<lambda>b i. exp (- 1)) = Inr [[False, True]]"
  by (simp add: mask_by_random_topk_def mask_by_random_topk_row_def confidence_row_def
        gumbel_noise_exp upt_rec fl_lt_def Let_def less_prod_def less_eq_prod_def)

lemma flatten_example: "codebook_flatten [[[0, 1 :: int]]] = [[0, 1]]"
  by (simp add: codebook_flatten_def codebook_flatten1_def upt_rec)

lemma unflatten_example: "codebook_unflatten [[a, b]] (Suc 0) = [[[a, b]]]"
  by (simp add: codebook_unflatten_def codebook_unflatten1_def upt_rec)

lemma generate_step_example:
  "generate_step (\<lambda>x. x) vn_tiny forward_zero gamma_linear state_one_masked 1 1 False (1/5) 1 None (- 1) rng_const
     = Inr (state_one_masked \<lparr> z_masked := [[[0, 1]]], mask := [[[False, True]]], step := 1 \<rparr>)"
  by (simp add: generate_step_def step_logits_def state_one_masked_def vn_tiny_def forward_zero_def rng_const_def
        gamma_linear_def sample_example flatten_example unflatten_example bcast_rows_def
        where_tt_def where_ts_def where_st_def num_to_mask_row_def count_true_def topk_example
        Let_def)


lemma wf_state_one_masked: "wf_state vn_tiny 2 state_one_masked"
  by (simp add: wf_state_def wf_grid_def vn_tiny_def state_one_masked_def)

lemma gumbel_noise_exp_exp: "gumbel_noise (exp (- exp 1)) = Fin (- 1)"
  by (simp add: gumbel_noise_def)

lemma topk_example_two:
  "mask_by_random_topk [1] [[Fin 1, Fin 1]] [2/3]
     (\<lambda>b i. if i = 0 then exp (- 1) else exp (- exp 1)) = Inr [[False, True]]"
  by (simp add: mask_by_random_topk_def mask_by_random_topk_row_def confidence_row_def
        gumbel_noise_exp gumbel_noise_exp_exp upt_rec fl_lt_def Let_def less_prod_def less_eq_prod_def)

lemma flatten_example_two: "codebook_flatten [[[1, 1 :: int]]] = [[1, 1]]"
  by (simp add: codebook_flatten_def codebook_flatten1_def upt_rec)

lemma generate_step_example_two:
  "generate_step (\<lambda>x. x) vn_tiny forward_zero gamma_linear state_two_masked 1 1 False (1/5) 1 None (- 1) rng_two
     = Inr (state_two_masked \<lparr> z_masked := [[[0, 1]]], mask := [[[False, True]]], step := 1 \<rparr>)"
  by (simp add: generate_step_def step_logits_def state_two_masked_def vn_tiny_def forward_zero_def rng_two_def
        gamma_linear_def sample_example flatten_example_two unflatten_example bcast_rows_def
        where_tt_def where_ts_def where_st_def num_to_mask_row_def count_true_def topk_example_two
        Let_def)

lemma wf_state_two_masked: "wf_state vn_tiny 2 state_two_masked"
  by (simp add: wf_state_def wf_grid_def vn_tiny_def state_two_masked_def)

section \<open>Resolved tokens stay\<close>

text \<open>
  Claim C3. Over any run of \<open>generate_step\<close> calls that returns, on a well-shaped state, a
  predicted position whose token is not the mask sentinel before the run holds the same
  token after it. One step puts the existing token back at every unmasked position
  (\<^verbatim>\<open>torch.where(mask, sampled_z, z_masked)\<close>), gives it the confidence \<open>+inf\<close>, and the
  strict comparison of the re-masking with its cut-off never holds for \<open>+inf\<close>, nor for
  the NaN that \<open>+inf\<close> plus infinite noise would be.
\<close>

theorem resolved_tokens_stay:
  assumes wf: "wf_state m n_t state"
    and run: "fold_err (\<lambda>k s. generate_step f32 m forward gamma s temperature mask_temperature
                 typical_filtering typical_mass typical_min_tokens top_p sample_cutoff (seed k))
               ks state = Inr state'"
    and pos: "b < length (z_masked state)" "n_conditioning_codebooks m \<le> c" "c < n_codebooks m"
      "t < n_t"
    and unmasked: "z_masked state ! b ! c ! t \<noteq> mask_token m"
  shows "z_masked state' ! b ! c ! t = z_masked state ! b ! c ! t"
  using generate_run_effect [OF wf run] pos unmasked by blast

text \<open>One step on a row with one resolved and one masked position.\<close>

theorem resolved_tokens_stay_witness:
  "z_masked (state_one_masked \<lparr> z_masked := [[[0, 1]]], mask := [[[False, True]]], step := 1 \<rparr>) ! 0 ! 0 ! 0
     = z_masked state_one_masked ! 0 ! 0 ! 0"
proof -
  have run: "fold_err (\<lambda>k s. generate_step (\<lambda>x. x) vn_tiny forward_zero gamma_linear s 1 1 False (1/5) 1 None
                 (- 1) ((\<lambda>k. rng_const) k)) [0] state_one_masked
      = Inr (state_one_masked \<lparr> z_masked := [[[0, 1]]], mask := [[[False, True]]], step := 1 \<rparr>)"
    by (simp add: generate_step_example)
  have pos: "0 < length (z_masked state_one_masked)" "n_conditioning_codebooks vn_tiny \<le> 0"
    "0 < n_codebooks vn_tiny" "(0::nat) < 2"
    by (simp_all add: state_one_masked_def vn_tiny_def)
  have un: "z_masked state_one_masked ! 0 ! 0 ! 0 \<noteq> mask_token vn_tiny"
    by (simp add: state_one_masked_def vn_tiny_def)
  show ?thesis
    using resolved_tokens_stay [OF wf_state_one_masked run pos un] .
qed

section \<open>The number of positions to re-mask\<close>

text \<open>
  Claim C4, as the code has it. On every step of \<open>generate_step\<close> that returns, and for
  every batch row, the target count is the floor of the float32 product
  \<open>gamma r * num_mask_tokens_at_start\<close>; on every step but the last it is replaced by
  \<open>max 1 (min (masked - 1) target)\<close>, where \<open>masked\<close> is the number of masked positions
  of the row. The new mask of the row marks exactly the positions whose confidence
  (\<open>log\<close> of the selected probability plus temperature times Gumbel noise, \<open>+inf\<close> at
  unmasked positions) lies strictly below the sorted confidence at index
  \<open>num_to_mask\<close>: at most \<open>num_to_mask\<close> positions, all of them masked before. The new
  grid holds the mask sentinel at the marked positions, the sampled token at the other
  positions that were masked, and the old token elsewhere. On a step that is not the
  last, a row with two or more masked positions has a target in \<open>[1, masked - 1]\<close>, is
  not masked again in full, and at least one of its masked positions receives its
  sampled token; a row with at most one masked position has the target 1.
\<close>

theorem num_to_mask_clamped:
  assumes wf: "wf_state m n_t state"
    and step: "generate_step f32 m forward gamma state temperature mask_temperature typical_filtering
       typical_mass typical_min_tokens top_p sample_cutoff rng = Inr state'"
    and b: "b < length (z_masked state)"
  shows "\<exists>sampled0 probs0 sampled probs.
           sample_from_logits f32 (step_logits forward state)
             (real (step state) / real (sampling_steps state) \<le> sample_cutoff)
             temperature None top_p typical_filtering typical_mass typical_min_tokens
             True (multinomial_u rng) = Inr (sampled0, Some probs0) \<and>
           bcast_rows (codebook_flatten (map (drop (n_conditioning_codebooks m)) (z_masked state)))
             sampled0 = Inr sampled \<and>
           bcast_rows (codebook_flatten (map (drop (n_conditioning_codebooks m)) (z_masked state)))
             probs0 = Inr probs \<and>
           (let z_flat = codebook_flatten (map (drop (n_conditioning_codebooks m)) (z_masked state));
                mask0 = map (map (\<lambda>x. x = mask_token m)) z_flat;
                selected_probs = where_ts mask0 probs PInf;
                masked = count_true (mask0 ! b);
                r = f32 (real (step state + 1) / real (sampling_steps state));
                target = \<lfloor>f32 (gamma r * real_of_int (num_mask_tokens_at_start state))\<rfloor>;
                num_to_mask = (if Suc (step state) \<noteq> sampling_steps state
                               then max 1 (min (masked - 1) target) else target);
                confidence = confidence_row (selected_probs ! b)
                               (f32 (mask_temperature * f32 (1 - r))) (gumbel_u rng b);
                new_mask = codebook_flatten (mask state') ! b;
                z_row = z_flat ! b;
                z_row' = codebook_flatten
                           (map (drop (n_conditioning_codebooks m)) (z_masked state')) ! b;
                n = n_t * (n_codebooks m - n_conditioning_codebooks m)
            in length new_mask = n \<and>
               (\<forall>i < n. new_mask ! i
                          = fl_lt (confidence ! i) (sort_key fl_key confidence ! nat num_to_mask)) \<and>
               (\<forall>i < n. new_mask ! i \<longrightarrow> z_row ! i = mask_token m) \<and>
               count_true new_mask \<le> num_to_mask \<and>
               (\<forall>i < n. z_row' ! i = (if new_mask ! i then mask_token m
                                       else if z_row ! i = mask_token m then sampled ! b ! i
                                       else z_row ! i)) \<and>
               (Suc (step state) \<noteq> sampling_steps state \<and> 2 \<le> masked \<longrightarrow>
                  1 \<le> num_to_mask \<and> num_to_mask \<le> masked - 1 \<and> count_true new_mask < masked \<and>
                  (\<exists>i < n. z_row ! i = mask_token m \<and> \<not> new_mask ! i \<and>
                            z_row' ! i = sampled ! b ! i)) \<and>
               (Suc (step state) \<noteq> sampling_steps state \<and> masked \<le> 1 \<longrightarrow> num_to_mask = 1))"
proof -
  let ?k = "n_conditioning_codebooks m"
  let ?n = "n_t * (n_codebooks m - ?k)"
  let ?z_flat = "codebook_flatten (map (drop ?k) (z_masked state))"
  let ?mask0 = "map (map (\<lambda>x. x = mask_token m)) ?z_flat"
  let ?masked = "count_true (?mask0 ! b)"
  let ?r = "f32 (real (step state + 1) / real (sampling_steps state))"
  let ?target = "\<lfloor>f32 (gamma ?r * real_of_int (num_mask_tokens_at_start state))\<rfloor>"
  let ?num = "if Suc (step state) \<noteq> sampling_steps state
              then max 1 (min (?masked - 1) ?target) else ?target"
  let ?temp = "f32 (mask_temperature * f32 (1 - ?r))"
  let ?new = "codebook_flatten (mask state') ! b"
  let ?z_row = "?z_flat ! b"
  let ?z_row' = "codebook_flatten (map (drop ?k) (z_masked state')) ! b"
  have wfz: "wf_grid m n_t (z_masked state)" and k: "?k < n_codebooks m"
    using wf by (simp_all add: wf_state_def)
  have row_zf: "length ?z_row = ?n" using flat_slice(1) [OF wfz k b] .
  have mb: "?mask0 ! b = map (\<lambda>x. x = mask_token m) ?z_row" using b by simp
  from generate_step_row [OF wf step b] obtain sampled0 probs0 sampled probs where
    smp: "sample_from_logits f32 (step_logits forward state)
             (real (step state) / real (sampling_steps state) \<le> sample_cutoff)
             temperature None top_p typical_filtering typical_mass typical_min_tokens
             True (multinomial_u rng) = Inr (sampled0, Some probs0)"
    and b1: "bcast_rows ?z_flat sampled0 = Inr sampled" and b2: "bcast_rows ?z_flat probs0 = Inr probs"
    and row0: "mask_by_random_topk_row
             (num_to_mask_row f32 gamma ?r (num_mask_tokens_at_start state)
                (Suc (step state) \<noteq> sampling_steps state)
                (count_true (map (\<lambda>x. x = mask_token m) ?z_row)))
             (where_ts ?mask0 probs PInf ! b) ?temp (gumbel_u rng b) = Inr ?new"
    and lsel: "length (where_ts ?mask0 probs PInf ! b) = ?n"
    and cells: "\<forall>i < ?n. ?z_row' ! i = (if ?new ! i then mask_token m
                                       else if ?z_row ! i = mask_token m then sampled ! b ! i
                                       else ?z_row ! i)"
    by blast
  let ?sel = "where_ts ?mask0 probs PInf ! b"
  let ?conf = "confidence_row ?sel ?temp (gumbel_u rng b)"
  have numeq: "num_to_mask_row f32 gamma ?r (num_mask_tokens_at_start state)
                (Suc (step state) \<noteq> sampling_steps state)
                (count_true (map (\<lambda>x. x = mask_token m) ?z_row)) = ?num"
    unfolding num_to_mask_row_def Let_def mb by (rule refl)
  have row: "mask_by_random_topk_row ?num ?sel ?temp (gumbel_u rng b) = Inr ?new"
    using row0 unfolding numeq .
  note d = mask_by_random_topk_row_InrD [OF row]
  have c1: "length ?new = ?n" using d(1) lsel by simp
  from mask_by_random_topk_row_props [OF d(2) d(3), of ?temp "gumbel_u rng b"] row
  have c2: "\<forall>i < ?n. ?new ! i = fl_lt (?conf ! i) (sort_key fl_key ?conf ! nat ?num)"
    using lsel by auto
  have lp: "length (probs ! b) = ?n" and lpp: "length probs = length (z_masked state)"
    using map_length_eqD [OF bcast_rows_shape [OF b2]] b row_zf by simp_all
  have sel_inf: "?sel ! i = PInf" if "i < ?n" "?z_row ! i \<noteq> mask_token m" for i
    using that b lpp lp row_zf by (simp add: where_ts_nth)
  have c3: "\<forall>i < ?n. ?new ! i \<longrightarrow> ?z_row ! i = mask_token m"
    using d(5) sel_inf lsel by metis
  have c4: "count_true ?new \<le> ?num" using d(4) .
  have c6: "1 \<le> ?num \<and> ?num \<le> ?masked - 1 \<and> count_true ?new < ?masked \<and>
            (\<exists>i < ?n. ?z_row ! i = mask_token m \<and> \<not> ?new ! i \<and> ?z_row' ! i = sampled ! b ! i)"
    if nf: "Suc (step state) \<noteq> sampling_steps state" and two: "2 \<le> ?masked"
  proof -
    have lo: "1 \<le> ?num" and hi: "?num \<le> ?masked - 1" using nf two by simp_all
    have lt: "count_true ?new < count_true (map (\<lambda>x. x = mask_token m) ?z_row)"
      using c4 hi mb by simp
    have "length ?new = length (map (\<lambda>x. x = mask_token m) ?z_row)" using c1 row_zf by simp
    from count_true_less_witness [OF this lt] obtain i where
      i: "i < ?n" "?z_row ! i = mask_token m" "\<not> ?new ! i"
      using row_zf by auto
    then have "?z_row' ! i = sampled ! b ! i" using cells by simp
    then show ?thesis using lo hi lt mb i by auto
  qed
  have c7: "?num = 1" if "Suc (step state) \<noteq> sampling_steps state" "?masked \<le> 1"
    using that by simp
  show ?thesis
    unfolding Let_def
    using smp b1 b2 c1 c2 c3 c4 cells c6 c7 by blast
qed

text \<open>
  A row with two masked positions on the first of three steps, in exact arithmetic: the
  target is 1, one position is masked again and the other holds the sampled token 0.
\<close>

theorem num_to_mask_clamped_witness:
  "count_true (codebook_flatten
      (mask (state_two_masked \<lparr> z_masked := [[[0, 1]]], mask := [[[False, True]]], step := 1 \<rparr>)) ! 0)
     \<le> max 1 (min (2 - 1) \<lfloor>gamma_linear (1/3) * 2\<rfloor>)
   \<and> max 1 (min (2 - 1) \<lfloor>gamma_linear (1/3) * 2\<rfloor>) = 1
   \<and> codebook_flatten (map (drop (n_conditioning_codebooks vn_tiny))
        (z_masked (state_two_masked \<lparr> z_masked := [[[0, 1]]], mask := [[[False, True]]], step := 1 \<rparr>)))
        ! 0 = [0, 1]"
proof -
  let ?s' = "state_two_masked \<lparr> z_masked := [[[0, 1]]], mask := [[[False, True]]], step := 1 \<rparr>"
  have b: "0 < length (z_masked state_two_masked)" by (simp add: state_two_masked_def)
  have masked: "count_true (map (map (\<lambda>x. x = mask_token vn_tiny))
      (codebook_flatten (map (drop (n_conditioning_codebooks vn_tiny)) (z_masked state_two_masked))) ! 0) = 2"
    by (simp add: vn_tiny_def state_two_masked_def flatten_example_two count_true_def)
  have r: "real (step state_two_masked + 1) / real (sampling_steps state_two_masked) = 1/3"
    and n: "num_mask_tokens_at_start state_two_masked = 2"
    and nonfinal: "Suc (step state_two_masked) \<noteq> sampling_steps state_two_masked"
    by (simp_all add: state_two_masked_def)
  from num_to_mask_clamped [OF wf_state_two_masked generate_step_example_two b]
  obtain sampled0 probs0 sampled probs where
    rest: "count_true (codebook_flatten (mask ?s') ! 0)
             \<le> max 1 (min (2 - 1) \<lfloor>gamma_linear (1/3) * 2\<rfloor>)"
    unfolding Let_def masked r n using nonfinal by auto
  have "max 1 (min (2 - 1) \<lfloor>gamma_linear (1/3) * 2\<rfloor>) = (1::int)"
    by (simp add: gamma_linear_def)
  moreover have "codebook_flatten (map (drop (n_conditioning_codebooks vn_tiny)) (z_masked ?s')) ! 0 = [0, 1]"
    by (simp add: vn_tiny_def flatten_example)
  ultimately show ?thesis using rest by simp
qed

text \<open>
  The claim as stated fails on a row with a single masked position, on the first of
  three steps: the range \<open>[1, masked - 1]\<close> is empty, the target is 1, and the step
  masks that position again, so no token of the row resolves.
\<close>

theorem num_to_mask_clamped_counterexample:
  "count_true (map (\<lambda>x. x = mask_token vn_tiny)
      (codebook_flatten (map (drop (n_conditioning_codebooks vn_tiny)) (z_masked state_one_masked)) ! 0)) = 1
   \<and> num_to_mask_row (\<lambda>x. x) gamma_linear (1/3) 1 True 1 = 1
   \<and> generate_step (\<lambda>x. x) vn_tiny forward_zero gamma_linear state_one_masked 1 1 False (1/5) 1 None (- 1) rng_const
     = Inr (state_one_masked \<lparr> z_masked := [[[0, 1]]], mask := [[[False, True]]], step := 1 \<rparr>)
   \<and> z_masked state_one_masked = [[[0, 1]]]"
proof -
  have "count_true (map (\<lambda>x. x = mask_token vn_tiny)
      (codebook_flatten (map (drop (n_conditioning_codebooks vn_tiny)) (z_masked state_one_masked)) ! 0)) = 1"
    by (simp add: vn_tiny_def state_one_masked_def flatten_example count_true_def)
  moreover have "num_to_mask_row (\<lambda>x. x) gamma_linear (1/3) 1 True 1 = 1"
    by (simp add: num_to_mask_row_def gamma_linear_def)
  moreover have "z_masked state_one_masked = [[[0, 1]]]"
    by (simp add: state_one_masked_def)
  ultimately show ?thesis
    using generate_step_example by blast
qed
section \<open>One level of the level-by-level generation\<close>

lemma length_fill_levels_above [simp]: "length (fill_levels_above l g) = length g"
  by (simp add: fill_levels_above_def)






text \<open>Two codebooks and one time step.\<close>

lemma flatten1_two: "codebook_flatten1 [[a], [b]] = [a, b]"
  by (simp add: codebook_flatten1_def upt_rec)

lemma unflatten1_two: "codebook_unflatten1 2 [a, b] = [[a], [b]]"
  by (simp add: codebook_unflatten1_def upt_rec numeral_2_eq_2)

lemma stemgen_level_probs_example:
  "stemgen_level_probs 2 0 [[Fin (1/2), Fin (1/3)]] = [[Fin (1/2), NInf]]"
  by (simp add: stemgen_level_probs_def codebook_flatten_def codebook_unflatten_def
        unflatten1_two flatten1_two fill_levels_above_def)


section \<open>The levels a sub-loop leaves alone\<close>




section \<open>Runs of the generation\<close>











section \<open>The conditioning codebooks\<close>




end
